theory Spec2Isabelle
  imports Complex_Main
begin

section \<open>Python values and errors shared by the pipeline modules\<close>

text \<open>
  The exceptions the modelled code can raise.  \<open>ZeroDivisionError\<close> comes from the float
  divisions of \<open>RateLimiter.acquire\<close>, \<open>TypeError\<close> from \<open>raise last_exception\<close> with
  \<open>last_exception = None\<close> and from \<open>len\<close> of a value without length, \<open>AttributeError\<close>
  from \<open>.get\<close> or \<open>.lower\<close> on a value of the wrong type, and \<open>DataError\<close> from the Redis
  client when it is asked to encode a member that is neither text nor a number.
\<close>

datatype py_error = ZeroDivisionError | TypeError | AttributeError | DataError

text \<open>
  Python floats are idealised as real numbers throughout: rounding is not modelled.
\<close>

section \<open>utils/retry.py\<close>

subsection \<open>exponential\_backoff\<close>

text \<open>
  \<open>random.uniform(a, b)\<close> is \<open>a + (b - a) * random()\<close>; the draw \<open>u\<close> of \<open>random()\<close> is a
  parameter of the model.
\<close>

definition uniform :: "real \<Rightarrow> real \<Rightarrow> real \<Rightarrow> real" where
  "uniform a b u = a + (b - a) * u"

definition exponential_backoff :: "nat \<Rightarrow> real \<Rightarrow> real \<Rightarrow> bool \<Rightarrow> real \<Rightarrow> real" where
  "exponential_backoff attempt base_delay max_delay jitter u =
     (let delay = min (base_delay * 2 ^ attempt) max_delay;
          delay = (if jitter
                   then (let jitter_range = delay * 0.25
                         in delay + uniform (- jitter_range) jitter_range u)
                   else delay)
      in max 0 delay)"

text \<open>
  The interval of the specification, read as it is written: the band
  \<open>baseDelay * 2^attempt * (1 \<plusminus> jitterFraction)\<close>, both ends clamped to
  \<open>[0, maxDelay * (1 + jitterFraction)]\<close>, with \<open>jitterFraction = 0.25\<close>.
\<close>

definition spec_clamp :: "real \<Rightarrow> real \<Rightarrow> real" where
  "spec_clamp max_delay x = max 0 (min x (max_delay * (1 + 0.25)))"

definition within_spec_band :: "nat \<Rightarrow> real \<Rightarrow> real \<Rightarrow> real \<Rightarrow> bool" where
  "within_spec_band attempt base_delay max_delay x =
     (spec_clamp max_delay (base_delay * 2 ^ attempt * (1 - 0.25)) \<le> x \<and>
      x \<le> spec_clamp max_delay (base_delay * 2 ^ attempt * (1 + 0.25)))"

subsection \<open>retry\_async\<close>

text \<open>
  The wrapped coroutine is given by what its \<open>k\<close>-th invocation does (\<open>func k\<close>, counting
  from 0): it raises an exception (\<open>Inl\<close>) or returns a value (\<open>Inr\<close>).  \<open>exceptions e\<close>
  says that \<open>e\<close> is an instance of one of the types in the \<open>exceptions\<close> tuple.  The
  callback \<open>on_retry\<close>, when given, yields \<open>True\<close> where it raises; the wrapper catches
  and logs that.  \<open>draw k\<close> is the jitter draw of the \<open>k\<close>-th backoff.
\<close>

datatype 'e raised = Propagated 'e | Builtin py_error

record ('e, 'a) run =
  result :: "'e raised + 'a"
  calls :: nat
  sleeps :: "real list"
  callback_errors :: nat

definition finished :: "'e raised + 'a \<Rightarrow> ('e, 'a) run" where
  "finished r = \<lparr>result = r, calls = 0, sleeps = [], callback_errors = 0\<rparr>"

definition invoked :: "('e, 'a) run \<Rightarrow> ('e, 'a) run" where
  "invoked r = r\<lparr>calls := Suc (calls r)\<rparr>"

definition slept :: "real \<Rightarrow> bool \<Rightarrow> ('e, 'a) run \<Rightarrow> ('e, 'a) run" where
  "slept delay cb_raised r =
     r\<lparr>sleeps := delay # sleeps r,
       callback_errors := (if cb_raised then Suc (callback_errors r) else callback_errors r)\<rparr>"

text \<open>
  The body of \<open>for attempt in range(max_attempts)\<close>, over the attempts still to run;
  \<open>last_exception\<close> is \<open>None\<close> until an exception has been caught.
\<close>

fun wrapper_loop ::
  "int \<Rightarrow> real \<Rightarrow> real \<Rightarrow> ('e \<Rightarrow> bool) \<Rightarrow> (nat \<Rightarrow> 'e \<Rightarrow> real \<Rightarrow> bool) option \<Rightarrow>
   (nat \<Rightarrow> real) \<Rightarrow> (nat \<Rightarrow> 'e + 'a) \<Rightarrow> 'e option \<Rightarrow> nat list \<Rightarrow> ('e, 'a) run" where
  "wrapper_loop max_attempts base_delay max_delay exceptions on_retry draw func last_exception [] =
     (case last_exception of
        None \<Rightarrow> finished (Inl (Builtin TypeError))
      | Some e \<Rightarrow> finished (Inl (Propagated e)))"
| "wrapper_loop max_attempts base_delay max_delay exceptions on_retry draw func last_exception
     (attempt # rest) =
     invoked
       (case func attempt of
          Inr v \<Rightarrow> finished (Inr v)
        | Inl e \<Rightarrow>
            if \<not> exceptions e then finished (Inl (Propagated e))
            else if int attempt = max_attempts - 1 then finished (Inl (Propagated e))
            else
              (let delay = exponential_backoff attempt base_delay max_delay True (draw attempt);
                   cb_raised = (case on_retry of None \<Rightarrow> False | Some cb \<Rightarrow> cb attempt e delay)
               in slept delay cb_raised
                    (wrapper_loop max_attempts base_delay max_delay exceptions on_retry draw func
                       (Some e) rest)))"

definition retry_async ::
  "int \<Rightarrow> real \<Rightarrow> real \<Rightarrow> ('e \<Rightarrow> bool) \<Rightarrow> (nat \<Rightarrow> 'e \<Rightarrow> real \<Rightarrow> bool) option \<Rightarrow>
   (nat \<Rightarrow> real) \<Rightarrow> (nat \<Rightarrow> 'e + 'a) \<Rightarrow> ('e, 'a) run" where
  "retry_async max_attempts base_delay max_delay exceptions on_retry draw func =
     wrapper_loop max_attempts base_delay max_delay exceptions on_retry draw func None
       [0 ..< nat max_attempts]"

section \<open>utils/rate\_limiter.py\<close>

subsection \<open>RateLimiter\<close>

record rate_limiter =
  max_requests :: int
  time_window :: real
  burst_size :: int
  tokens :: real
  last_update :: real

text \<open>
  The constructor; \<open>now\<close> is the reading of \<open>time.time()\<close>.  \<open>burst_size or max_requests\<close>
  takes \<open>max_requests\<close> when \<open>burst_size\<close> is \<open>None\<close> or 0.
\<close>

definition RateLimiter :: "int \<Rightarrow> real \<Rightarrow> int option \<Rightarrow> real \<Rightarrow> rate_limiter" where
  "RateLimiter max_reqs window burst now =
     (let b = (case burst of None \<Rightarrow> max_reqs | Some b \<Rightarrow> if b = 0 then max_reqs else b)
      in \<lparr>max_requests = max_reqs, time_window = window, burst_size = b,
          tokens = of_int b, last_update = now\<rparr>)"

text \<open>
  One pass through the body of \<open>while True\<close>, which runs with the lock held: the refill,
  then either the decrement and return, or the wait time for which the caller sleeps with
  the lock released.  Both divisions raise \<open>ZeroDivisionError\<close> on a zero divisor; the
  first one happens before anything is assigned.  The third component lists the values
  \<open>self.tokens\<close> is assigned in this pass, in order.
\<close>

datatype attempt = Acquired | Wait real | Raised py_error

definition acquire_attempt ::
  "int \<Rightarrow> real \<Rightarrow> rate_limiter \<Rightarrow> attempt \<times> rate_limiter \<times> real list" where
  "acquire_attempt n now rl =
     (if time_window rl = 0 then (Raised ZeroDivisionError, rl, [])
      else
        (let elapsed = now - last_update rl;
             refill = elapsed * (of_int (max_requests rl) / time_window rl);
             refilled = min (of_int (burst_size rl)) (tokens rl + refill);
             rl1 = rl\<lparr>tokens := refilled, last_update := now\<rparr>
         in if refilled \<ge> of_int n
            then (Acquired, rl1\<lparr>tokens := refilled - of_int n\<rparr>, [refilled, refilled - of_int n])
            else if max_requests rl = 0 then (Raised ZeroDivisionError, rl1, [refilled])
            else
              (let tokens_needed = of_int n - refilled;
                   wait_time = (tokens_needed / of_int (max_requests rl)) * time_window rl
               in (Wait wait_time, rl1, [refilled]))))"

text \<open>
  \<open>acquire\<close> repeats the pass until it returns or raises.  The clock is the list of the
  readings \<open>time.time()\<close> gives at the successive passes; a call that has used every
  reading supplied and is still waiting is \<open>StillWaiting\<close>.  Nothing is assumed of how
  the readings relate to the wait times, since other tasks may run during the sleep.
\<close>

datatype outcome = Returned | Failed py_error | StillWaiting

record acquired =
  outcome :: outcome
  limiter_after :: rate_limiter
  clock_after :: "real list"
  assigned :: "real list"

fun acquire :: "int \<Rightarrow> real list \<Rightarrow> rate_limiter \<Rightarrow> acquired" where
  "acquire n [] rl =
     \<lparr>outcome = StillWaiting, limiter_after = rl, clock_after = [], assigned = []\<rparr>"
| "acquire n (now # clock) rl =
     (case acquire_attempt n now rl of
        (Acquired, rl', ts) \<Rightarrow>
          \<lparr>outcome = Returned, limiter_after = rl', clock_after = clock, assigned = ts\<rparr>
      | (Raised e, rl', ts) \<Rightarrow>
          \<lparr>outcome = Failed e, limiter_after = rl', clock_after = clock, assigned = ts\<rparr>
      | (Wait w, rl', ts) \<Rightarrow>
          (let r = acquire n clock rl' in r\<lparr>assigned := ts @ assigned r\<rparr>))"

text \<open>
  A sequence of \<open>acquire\<close> calls on one limiter, one after the other on a shared clock;
  the result is every value assigned to \<open>self.tokens\<close> on the way.  The sequence ends
  with the first call that does not return.
\<close>

fun acquire_calls :: "int list \<Rightarrow> real list \<Rightarrow> rate_limiter \<Rightarrow> real list" where
  "acquire_calls [] clock rl = []"
| "acquire_calls (n # ns) clock rl =
     (let r = acquire n clock rl
      in assigned r @
         (if outcome r = Returned then acquire_calls ns (clock_after r) (limiter_after r)
          else []))"

subsection \<open>AdaptiveRateLimiter\<close>

text \<open>\<open>int(x)\<close> of a float truncates towards zero.\<close>

definition py_int :: "real \<Rightarrow> int" where
  "py_int x = (if 0 \<le> x then \<lfloor>x\<rfloor> else \<lceil>x\<rceil>)"

record adaptive_rate_limiter =
  current_rate :: real
  min_rate :: real
  max_rate :: real
  increase_factor :: real
  decrease_factor :: real
  limiter :: rate_limiter
  success_count :: int
  consecutive_successes :: int

definition AdaptiveRateLimiter ::
  "real \<Rightarrow> real \<Rightarrow> real \<Rightarrow> real \<Rightarrow> real \<Rightarrow> real \<Rightarrow> adaptive_rate_limiter" where
  "AdaptiveRateLimiter initial_rate min_r max_r inc dec now =
     \<lparr>current_rate = initial_rate, min_rate = min_r, max_rate = max_r,
      increase_factor = inc, decrease_factor = dec,
      limiter = RateLimiter (py_int initial_rate) 1 (Some (py_int (initial_rate * 2))) now,
      success_count = 0, consecutive_successes = 0\<rparr>"

definition update_limiter :: "real \<Rightarrow> adaptive_rate_limiter \<Rightarrow> adaptive_rate_limiter" where
  "update_limiter now a =
     a\<lparr>limiter := RateLimiter (py_int (current_rate a)) 1
                     (Some (py_int (current_rate a * 2))) now\<rparr>"

definition increase_rate :: "real \<Rightarrow> adaptive_rate_limiter \<Rightarrow> adaptive_rate_limiter" where
  "increase_rate now a =
     (let old_rate = current_rate a;
          a1 = a\<lparr>current_rate := min (max_rate a) (current_rate a * increase_factor a)\<rparr>
      in if current_rate a1 \<noteq> old_rate then update_limiter now a1 else a1)"

definition decrease_rate :: "real \<Rightarrow> adaptive_rate_limiter \<Rightarrow> adaptive_rate_limiter" where
  "decrease_rate now a =
     (let old_rate = current_rate a;
          a1 = a\<lparr>current_rate := max (min_rate a) (current_rate a * decrease_factor a)\<rparr>
      in if current_rate a1 \<noteq> old_rate then update_limiter now a1 else a1)"

definition on_success :: "real \<Rightarrow> adaptive_rate_limiter \<Rightarrow> adaptive_rate_limiter" where
  "on_success now a =
     (let a1 = a\<lparr>consecutive_successes := consecutive_successes a + 1\<rparr>
      in if consecutive_successes a1 \<ge> 10
         then (increase_rate now a1)\<lparr>consecutive_successes := 0\<rparr>
         else a1)"

definition on_rate_limit :: "real \<Rightarrow> adaptive_rate_limiter \<Rightarrow> adaptive_rate_limiter" where
  "on_rate_limit now a = decrease_rate now (a\<lparr>consecutive_successes := 0\<rparr>)"

text \<open>
  Calls in a row, each with the clock reading it would use for a rebuild; the head of
  the list is the first call.
\<close>

fun on_successes :: "real list \<Rightarrow> adaptive_rate_limiter \<Rightarrow> adaptive_rate_limiter" where
  "on_successes [] a = a"
| "on_successes (now # nows) a = on_successes nows (on_success now a)"

fun on_rate_limits :: "real list \<Rightarrow> adaptive_rate_limiter \<Rightarrow> adaptive_rate_limiter" where
  "on_rate_limits [] a = a"
| "on_rate_limits (now # nows) a = on_rate_limits nows (on_rate_limit now a)"

text \<open>\<open>AdaptiveRateLimiter.acquire\<close> delegates to the wrapped limiter with one token.\<close>

definition adaptive_acquire :: "real list \<Rightarrow> adaptive_rate_limiter \<Rightarrow> acquired" where
  "adaptive_acquire clock a = acquire 1 clock (limiter a)"

section \<open>redis\_storage.py\<close>

subsection \<open>JSON values as Python sees them\<close>

text \<open>
  What \<open>json.load\<close> returns.  An object is kept as the list of its items, and a key is
  looked up from the front.  Floats are left out of the type.
\<close>

datatype json =
  JNull | JBool bool | JInt int | JStr string | JArr "json list" | JObj "(string \<times> json) list"

text \<open>Truth value of a value in a condition (\<open>if not farm_id\<close>, \<open>if farm.get(...)\<close>).\<close>

fun truthy :: "json \<Rightarrow> bool" where
  "truthy JNull = False"
| "truthy (JBool b) = b"
| "truthy (JInt i) = (i \<noteq> 0)"
| "truthy (JStr s) = (s \<noteq> [])"
| "truthy (JArr xs) = (xs \<noteq> [])"
| "truthy (JObj kv) = (kv \<noteq> [])"

text \<open>\<open>d.get(k, default)\<close>; only a dict has \<open>get\<close>.\<close>

definition dict_get :: "json \<Rightarrow> string \<Rightarrow> json \<Rightarrow> py_error + json" where
  "dict_get d k dflt =
     (case d of
        JObj kv \<Rightarrow> Inr (case map_of kv k of None \<Rightarrow> dflt | Some v \<Rightarrow> v)
      | _ \<Rightarrow> Inl AttributeError)"

definition dict_items :: "json \<Rightarrow> (string \<times> json) list" where
  "dict_items d = (case d of JObj kv \<Rightarrow> kv | _ \<Rightarrow> [])"

text \<open>\<open>len(x)\<close> and iteration over \<open>x\<close>, for the document read from the file.\<close>

definition py_len :: "json \<Rightarrow> py_error + nat" where
  "py_len x =
     (case x of
        JArr xs \<Rightarrow> Inr (length xs)
      | JObj kv \<Rightarrow> Inr (length kv)
      | JStr s \<Rightarrow> Inr (length s)
      | _ \<Rightarrow> Inl TypeError)"

definition py_iter :: "json \<Rightarrow> json list" where
  "py_iter x =
     (case x of
        JArr xs \<Rightarrow> xs
      | JObj kv \<Rightarrow> map (\<lambda>p. JStr (fst p)) kv
      | JStr s \<Rightarrow> map (\<lambda>c. JStr [c]) s
      | _ \<Rightarrow> [])"

text \<open>\<open>str.lower()\<close> on ASCII letters, and \<open>sub in s\<close> for strings.\<close>

definition lower_char :: "char \<Rightarrow> char" where
  "lower_char c =
     (case map_of (zip ''ABCDEFGHIJKLMNOPQRSTUVWXYZ'' ''abcdefghijklmnopqrstuvwxyz'') c of
        Some l \<Rightarrow> l
      | None \<Rightarrow> c)"

fun starts_with :: "string \<Rightarrow> string \<Rightarrow> bool" where
  "starts_with [] s = True"
| "starts_with (p # ps) [] = False"
| "starts_with (p # ps) (c # cs) = (p = c \<and> starts_with ps cs)"

fun contains :: "string \<Rightarrow> string \<Rightarrow> bool" where
  "contains sub [] = (sub = [])"
| "contains sub (c # cs) = (starts_with sub (c # cs) \<or> contains sub cs)"

text \<open>
  \<open>website and not any(social in website.lower() for social in [...])\<close>: a falsy website
  ends the test before \<open>lower\<close> is called; a truthy one that is no string has no
  \<open>lower\<close>.
\<close>

definition website_usable :: "json \<Rightarrow> py_error + bool" where
  "website_usable website =
     (if \<not> truthy website then Inr False
      else (case website of
              JStr w \<Rightarrow>
                Inr (\<not> list_ex (\<lambda>social. contains social (map lower_char w))
                          [''facebook'', ''instagram'', ''twitter''])
            | _ \<Rightarrow> Inl AttributeError))"

subsection \<open>The Redis data the class touches\<close>

text \<open>
  The Redis client encodes a set member when the pipeline is sent: text as it is, an
  integer by its decimal digits, and raises \<open>DataError\<close> for \<open>None\<close>, a bool, a list or
  a dict.
\<close>

fun digits :: "nat \<Rightarrow> string" where
  "digits k = (if k < 10 then [''0123456789'' ! k]
               else digits (k div 10) @ [''0123456789'' ! (k mod 10)])"

declare digits.simps [simp del]

definition str_int :: "int \<Rightarrow> string" where
  "str_int i = (if i < 0 then CHR ''-'' # digits (nat (- i)) else digits (nat i))"

definition redis_encode :: "json \<Rightarrow> py_error + string" where
  "redis_encode v =
     (case v of
        JStr s \<Rightarrow> Inr s
      | JInt i \<Rightarrow> Inr (str_int i)
      | _ \<Rightarrow> Inl DataError)"

text \<open>
  The five sets under the prefix \<open>farms:\<close>, and the hashes \<open>farm:<id>\<close>, indexed here by
  the id as Redis stores it.  A hash maps a field to the value whose text Redis
  holds; a hash without fields is a key that does not exist.  The model takes the
  Redis server to be reachable.
\<close>

datatype set_key =
  FARMS_ALL | FARMS_PROCESSED | FARMS_FAILED | FARMS_NEEDS_DESCRIPTION | FARMS_PRIORITY

record store =
  sets :: "set_key \<Rightarrow> string set"
  hashes :: "string \<Rightarrow> (string \<rightharpoonup> json)"

text \<open>
  The commands queued on a pipeline.  \<open>HSET\<close> carries the farm id from which the key
  \<open>farm:<id>\<close> is formatted; for the ids that can be stored, text and integers, the
  formatted id and the encoded set member are the same text.
\<close>

datatype command =
  HSET json "(string \<times> json) list"
| SADD set_key json
| SREM set_key json

fun command_member :: "command \<Rightarrow> json" where
  "command_member (HSET m fvs) = m"
| "command_member (SADD k m) = m"
| "command_member (SREM k m) = m"

definition encodable :: "command \<Rightarrow> bool" where
  "encodable c = (case redis_encode (command_member c) of Inr s \<Rightarrow> True | Inl e \<Rightarrow> False)"

fun apply_command :: "store \<Rightarrow> command \<Rightarrow> store" where
  "apply_command st (HSET m fvs) =
     (case redis_encode m of
        Inr s \<Rightarrow> st\<lparr>hashes := (hashes st)(s := hashes st s ++ map_of fvs)\<rparr>
      | Inl e \<Rightarrow> st)"
| "apply_command st (SADD k m) =
     (case redis_encode m of
        Inr s \<Rightarrow> st\<lparr>sets := (sets st)(k := insert s (sets st k))\<rparr>
      | Inl e \<Rightarrow> st)"
| "apply_command st (SREM k m) =
     (case redis_encode m of
        Inr s \<Rightarrow> st\<lparr>sets := (sets st)(k := sets st k - {s})\<rparr>
      | Inl e \<Rightarrow> st)"

text \<open>
  \<open>pipe.execute()\<close>: the client packs every queued command before it sends any, so a
  member it cannot encode raises \<open>DataError\<close> with nothing applied; otherwise the
  commands run in order as one MULTI/EXEC transaction.
\<close>

definition execute :: "command list \<Rightarrow> store \<Rightarrow> py_error + store" where
  "execute cmds st =
     (if list_all encodable cmds then Inr (foldl apply_command st cmds) else Inl DataError)"

subsection \<open>FarmStorage\<close>

text \<open>
  \<open>clear_all_data\<close> deletes the keys matching \<open>farms:*\<close>: the five sets.  The hashes
  \<open>farm:<id>\<close> do not match the pattern and stay.
\<close>

definition clear_all_data :: "store \<Rightarrow> store" where
  "clear_all_data st = st\<lparr>sets := (\<lambda>k. {})\<rparr>"

text \<open>
  The body of the loop of \<open>save_farms_batch\<close> for one farm: \<open>Inr None\<close> when the farm
  is skipped for its missing id, \<open>Inr (Some cmds)\<close> with the commands it queues, \<open>Inl\<close>
  when it raises.
\<close>

definition farm_commands :: "json \<Rightarrow> py_error + command list option" where
  "farm_commands farm =
     (case dict_get farm ''id'' JNull of
        Inl e \<Rightarrow> Inl e
      | Inr farm_id \<Rightarrow>
          if \<not> truthy farm_id then Inr None
          else
            (let queued = [HSET farm_id (dict_items farm), SADD FARMS_ALL farm_id]
             in case dict_get farm ''description'' JNull of
                  Inl e \<Rightarrow> Inl e
                | Inr description \<Rightarrow>
                    if truthy description
                    then Inr (Some (queued @ [SADD FARMS_PROCESSED farm_id]))
                    else
                      (case dict_get farm ''contact'' (JObj []) of
                         Inl e \<Rightarrow> Inl e
                       | Inr contact \<Rightarrow>
                           (case dict_get contact ''website'' (JStr []) of
                              Inl e \<Rightarrow> Inl e
                            | Inr website \<Rightarrow>
                                (case website_usable website of
                                   Inl e \<Rightarrow> Inl e
                                 | Inr usable \<Rightarrow>
                                     if usable
                                     then Inr (Some (queued @
                                                 [SADD FARMS_NEEDS_DESCRIPTION farm_id]))
                                     else Inr (Some queued))))))"

text \<open>The loop: the commands queued for all farms and the number of farms skipped.\<close>

fun queue_farms :: "json list \<Rightarrow> py_error + (command list \<times> nat)" where
  "queue_farms [] = Inr ([], 0)"
| "queue_farms (farm # farms) =
     (case farm_commands farm of
        Inl e \<Rightarrow> Inl e
      | Inr c \<Rightarrow>
          (case queue_farms farms of
             Inl e \<Rightarrow> Inl e
           | Inr (cmds, skipped) \<Rightarrow>
               (case c of
                  None \<Rightarrow> Inr (cmds, Suc skipped)
                | Some cs \<Rightarrow> Inr (cs @ cmds, skipped))))"

record results =
  success :: nat
  failed :: nat

text \<open>
  \<open>save_farms_batch\<close>: any exception, in the loop or in \<open>execute\<close>, is caught; the
  pipeline is dropped and every farm is counted as failed.
\<close>

definition save_farms_batch :: "json list \<Rightarrow> store \<Rightarrow> results \<times> store" where
  "save_farms_batch farms st =
     (case queue_farms farms of
        Inl e \<Rightarrow> (\<lparr>success = 0, failed = length farms\<rparr>, st)
      | Inr (cmds, skipped) \<Rightarrow>
          (case execute cmds st of
             Inl e \<Rightarrow> (\<lparr>success = 0, failed = length farms\<rparr>, st)
           | Inr st' \<Rightarrow> (\<lparr>success = length farms, failed = skipped\<rparr>, st')))"

text \<open>
  \<open>import_from_json\<close>: the document is \<open>None\<close> when the file is missing or is not
  JSON.  \<open>len(farms)\<close> is taken for the log line before anything is cleared, so a
  document without length leaves the store as it was.
\<close>

definition import_from_json :: "json option \<Rightarrow> store \<Rightarrow> results \<times> store" where
  "import_from_json document st =
     (case document of
        None \<Rightarrow> (\<lparr>success = 0, failed = 0\<rparr>, st)
      | Some farms \<Rightarrow>
          (case py_len farms of
             Inl e \<Rightarrow> (\<lparr>success = 0, failed = 0\<rparr>, st)
           | Inr k \<Rightarrow> save_farms_batch (py_iter farms) (clear_all_data st)))"

text \<open>
  \<open>update_farm_description\<close>; \<open>now\<close> is \<open>datetime.now().isoformat()\<close>.  The four
  commands go through one pipeline, and an exception is answered with \<open>False\<close>.
\<close>

definition update_farm_description :: "json \<Rightarrow> string \<Rightarrow> string \<Rightarrow> store \<Rightarrow> bool \<times> store" where
  "update_farm_description farm_id description now st =
     (case execute [HSET farm_id [(''description'', JStr description)],
                    HSET farm_id [(''updatedAt'', JStr now)],
                    SADD FARMS_PROCESSED farm_id,
                    SREM FARMS_NEEDS_DESCRIPTION farm_id] st of
        Inl e \<Rightarrow> (False, st)
      | Inr st' \<Rightarrow> (True, st'))"

text \<open>
  The counts of \<open>get_pipeline_status\<close>.  The coverage percentage (a rounded float) and
  the time stamp of the report are not part of the model.
\<close>

record status =
  total_farms :: nat
  processed_farms :: nat
  failed_farms :: nat
  needs_description :: nat

definition get_pipeline_status :: "store \<Rightarrow> status" where
  "get_pipeline_status st =
     \<lparr>total_farms = card (sets st FARMS_ALL),
      processed_farms = card (sets st FARMS_PROCESSED),
      failed_farms = card (sets st FARMS_FAILED),
      needs_description = card (sets st FARMS_NEEDS_DESCRIPTION)\<rparr>"

section \<open>redis\_description\_workflow.py\<close>

text \<open>
  What the outside world does for one farm of a batch: whether scraping reports
  success, whether building the prompt raises, the description the API returns (\<open>None\<close>
  when it reports an error), whether writing the CSV row raises, and the clock reading
  used for \<open>updatedAt\<close>.  \<open>scrape_farm_website\<close> and \<open>generate_description_with_deepseek\<close>
  catch their own exceptions and report them in their result.
\<close>

record effects =
  scrape_ok :: bool
  prompt_raises :: bool
  generated :: "string option"
  csv_raises :: bool
  updated_at :: string

text \<open>
  The \<open>try\<close> block for one farm: the numbers added to \<open>success\<close> and \<open>failed\<close> and
  the store afterwards.  An exception from \<open>save_to_csv\<close> adds to \<open>failed\<close> whatever
  was counted before.
\<close>

definition process_farm :: "json \<Rightarrow> effects \<Rightarrow> store \<Rightarrow> nat \<times> nat \<times> store" where
  "process_farm farm_id fx st =
     (let csv = (if csv_raises fx then 1 else 0)
      in if \<not> scrape_ok fx then (0, 1 + csv, st)
         else if prompt_raises fx then (0, 1, st)
         else (case generated fx of
                 None \<Rightarrow> (0, 1 + csv, st)
               | Some description \<Rightarrow>
                   (case update_farm_description farm_id description (updated_at fx) st of
                      (True, st') \<Rightarrow> (1, csv, st')
                    | (False, st') \<Rightarrow> (0, 1 + csv, st'))))"

text \<open>
  \<open>process_farm_batch\<close>.  The three \<open>get\<close> calls at the head of the loop body are
  outside the \<open>try\<close>, so an exception there leaves the function.  The JSON export at the
  end reads the store and catches its own exceptions.
\<close>

fun process_farm_batch :: "(json \<times> effects) list \<Rightarrow> store \<Rightarrow> py_error + (results \<times> store)" where
  "process_farm_batch [] st = Inr (\<lparr>success = 0, failed = 0\<rparr>, st)"
| "process_farm_batch ((farm, fx) # rest) st =
     (case dict_get farm ''name'' (JStr ''Unknown Farm'') of
        Inl e \<Rightarrow> Inl e
      | Inr farm_name \<Rightarrow>
          (case dict_get farm ''id'' (JStr ''Unknown'') of
             Inl e \<Rightarrow> Inl e
           | Inr farm_id \<Rightarrow>
               (case dict_get farm ''contact'' (JObj []) of
                  Inl e \<Rightarrow> Inl e
                | Inr contact \<Rightarrow>
                    (case dict_get contact ''website'' (JStr []) of
                       Inl e \<Rightarrow> Inl e
                     | Inr website \<Rightarrow>
                         (case process_farm farm_id fx st of
                            (s, f, st') \<Rightarrow>
                              (case process_farm_batch rest st' of
                                 Inl e \<Rightarrow> Inl e
                               | Inr (res, st'') \<Rightarrow>
                                   Inr (\<lparr>success = s + success res, failed = f + failed res\<rparr>,
                                        st'')))))))"

declare process_farm_batch.simps(2) [simp del]

section \<open>The partition invariant of the specification\<close>


text \<open>A Redis database without keys.\<close>

definition empty_store :: store where
  "empty_store = \<lparr>sets = (\<lambda>k. {}), hashes = (\<lambda>s. Map.empty)\<rparr>"

section \<open>Invariants used in the proofs\<close>




text \<open>
  A farm as \<open>get_farm\<close> returns it: a dict whose \<open>contact\<close>, when present, is a dict;
  and such a farm with a text id.
\<close>

definition well_formed :: "json \<Rightarrow> bool" where
  "well_formed farm =
     (case farm of
        JObj kv \<Rightarrow> (case map_of kv ''contact'' of
                      None \<Rightarrow> True
                    | Some c \<Rightarrow> (case c of JObj ckv \<Rightarrow> True | _ \<Rightarrow> False))
      | _ \<Rightarrow> False)"

definition farm_with_id :: "json \<Rightarrow> string \<Rightarrow> bool" where
  "farm_with_id farm i =
     (well_formed farm \<and> dict_get farm ''id'' (JStr ''Unknown'') = Inr (JStr i))"

text \<open>
  The operation on a farm succeeds when scraping and generation both report success and
  nothing raises; it fails when scraping or generation reports an error or building the
  prompt raises, the CSV row still being written.
\<close>

definition op_succeeds :: "effects \<Rightarrow> bool" where
  "op_succeeds fx =
     (scrape_ok fx \<and> \<not> prompt_raises fx \<and> generated fx \<noteq> None \<and> \<not> csv_raises fx)"

definition op_fails :: "effects \<Rightarrow> bool" where
  "op_fails fx =
     ((\<not> scrape_ok fx \<or> prompt_raises fx \<or> generated fx = None) \<and> \<not> csv_raises fx)"

text \<open>
  The store after the description generated for farm \<open>i\<close> has been saved, and what a
  caller observes of a batch: the counts, the failed set and the needs-description set.
\<close>

definition described :: "string \<Rightarrow> effects \<Rightarrow> store \<Rightarrow> store" where
  "described i fx st = snd (update_farm_description (JStr i) (the (generated fx)) (updated_at fx) st)"

definition batch_report ::
  "py_error + (results \<times> store) \<Rightarrow> py_error + (results \<times> string set \<times> string set)" where
  "batch_report r =
     (case r of
        Inl e \<Rightarrow> Inl e
      | Inr (res, st) \<Rightarrow> Inr (res, sets st FARMS_FAILED, sets st FARMS_NEEDS_DESCRIPTION))"

subsection \<open>Example data\<close>

definition example_farm :: "string \<Rightarrow> json" where
  "example_farm i =
     JObj [(''id'', JStr i), (''name'', JStr ''Farm Shop''),
           (''contact'', JObj [(''website'', JStr ''https://farm.example'')])]"

definition op_ok :: effects where
  "op_ok = \<lparr>scrape_ok = True, prompt_raises = False, generated = Some ''We grow apples.'',
            csv_raises = False, updated_at = ''2025-01-01T00:00:00''\<rparr>"

definition op_error :: effects where
  "op_error = \<lparr>scrape_ok = False, prompt_raises = False, generated = None,
               csv_raises = False, updated_at = ''2025-01-01T00:00:00''\<rparr>"

definition op_error_csv :: effects where
  "op_error_csv = \<lparr>scrape_ok = False, prompt_raises = False, generated = None,
                   csv_raises = True, updated_at = ''2025-01-01T00:00:00''\<rparr>"

definition example_store :: store where
  "example_store =
     snd (import_from_json
            (Some (JArr (map example_farm [''f1'', ''f2'', ''f3'', ''f4'', ''f5''])))
            empty_store)"

subsection \<open>Rate limiter invariants\<close>

text \<open>
  A valid configuration together with the bounds on the bucket, and the agreement of an
  adaptive limiter's wrapped limiter with its current rate.
\<close>

definition bucket_ok :: "rate_limiter \<Rightarrow> bool" where
  "bucket_ok rl = (0 < max_requests rl \<and> 0 < time_window rl \<and> max_requests rl \<le> burst_size rl \<and>
                   0 \<le> tokens rl \<and> tokens rl \<le> of_int (burst_size rl))"

definition limiter_synced :: "adaptive_rate_limiter \<Rightarrow> bool" where
  "limiter_synced a = (max_requests (limiter a) = py_int (current_rate a) \<and> time_window (limiter a) = 1)"

section \<open>Properties of utils/retry.py\<close>

subsection \<open>The backoff delay\<close>

lemma backoff_value:
  "exponential_backoff a b m True u = max 0 (min (b * 2 ^ a) m * (3/4 + u/2))"
  by (simp add: exponential_backoff_def uniform_def Let_def algebra_simps)

lemma pre_jitter_mono:
  "0 \<le> b \<Longrightarrow> a \<le> a' \<Longrightarrow> min (b * 2 ^ a) (m::real) \<le> min (b * 2 ^ a') m"
proof -
  assume b: "0 \<le> b" and le: "a \<le> a'"
  have "(2::real) ^ a \<le> 2 ^ a'" using le by (simp add: power_increasing)
  then have "b * 2 ^ a \<le> b * 2 ^ a'" using b by (simp add: mult_left_mono)
  then show ?thesis by (simp add: min_le_iff_disj)
qed

text \<open>
  Claim C8, as the code has it.  With non-negative \<open>base_delay\<close> and \<open>max_delay\<close> and a
  draw \<open>u\<close> in \<open>[0, 1]\<close>, every sample with jitter lies within \<open>d * (1 \<plusminus> 0.25)\<close> floored
  at 0, where \<open>d = min (base_delay * 2^attempt) max_delay\<close> is the delay before jitter;
  so it lies in \<open>[0, max_delay * 1.25]\<close>.  While \<open>base_delay * 2^attempt\<close> has not reached
  \<open>max_delay\<close> the sample is in the band of the specification, and the delay before jitter
  is non-decreasing in the attempt number.
\<close>

theorem exponential_backoff_bounds:
  assumes "0 \<le> b" "0 \<le> m" "0 \<le> u" "u \<le> 1"
  shows "max 0 (min (b * 2 ^ a) m * (1 - 0.25)) \<le> exponential_backoff a b m True u
       \<and> exponential_backoff a b m True u \<le> min (b * 2 ^ a) m * (1 + 0.25)
       \<and> 0 \<le> exponential_backoff a b m True u
       \<and> exponential_backoff a b m True u \<le> m * (1 + 0.25)
       \<and> (b * 2 ^ a \<le> m \<longrightarrow> within_spec_band a b m (exponential_backoff a b m True u))
       \<and> (a \<le> a' \<longrightarrow> min (b * 2 ^ a) m \<le> min (b * 2 ^ a') m)"
proof -
  define d where "d = min (b * 2 ^ a) m"
  define x where "x = d * (3/4 + u/2)"
  define y where "y = exponential_backoff a b m True u"
  have d0: "0 \<le> d" using assms by (simp add: d_def)
  have dm: "d \<le> m" by (simp add: d_def)
  have "3/4 \<le> 3/4 + u/2" using assms by simp
  then have "d * (3/4) \<le> x" unfolding x_def using d0 by (rule mult_left_mono)
  then have lo: "3 * d \<le> 4 * x" by simp
  have "3/4 + u/2 \<le> 5/4" using assms by simp
  then have "x \<le> d * (5/4)" unfolding x_def using d0 by (rule mult_left_mono)
  then have hi: "4 * x \<le> 5 * d" by simp
  have y: "y = max 0 x" by (simp add: y_def x_def backoff_value d_def)
  have x0: "0 \<le> x" using lo d0 by linarith
  then have yx: "y = x" using y by simp
  have 1: "max 0 (d * (1 - 0.25)) \<le> y" using lo d0 yx by simp
  have 2: "y \<le> d * (1 + 0.25)" using hi yx by simp
  have 3: "0 \<le> y" using x0 yx by simp
  have 4: "y \<le> m * (1 + 0.25)" using hi dm yx by simp
  have 5: "b * 2 ^ a \<le> m \<longrightarrow> within_spec_band a b m y"
  proof
    assume le: "b * 2 ^ a \<le> m"
    then have dd: "b * 2 ^ a = d" by (simp add: d_def)
    have "max 0 (min (d * (1 - 0.25)) (m * (1 + 0.25))) \<le> x"
      using lo d0 dm x0 by (simp add: min_le_iff_disj)
    moreover have "x \<le> max 0 (min (d * (1 + 0.25)) (m * (1 + 0.25)))"
      using hi dm by (simp add: le_max_iff_disj)
    ultimately show "within_spec_band a b m y"
      unfolding within_spec_band_def spec_clamp_def dd yx by simp
  qed
  show ?thesis
    using 1 2 3 4 5 pre_jitter_mono[OF assms(1), of a a' m] unfolding y_def d_def by blast
qed

theorem exponential_backoff_bounds_witness:
  "(0::real) \<le> 1 \<and> (0::real) \<le> 60 \<and> (0::real) \<le> 1/2 \<and> (1/2::real) \<le> 1 \<and>
   (1::real) * 2 ^ 2 \<le> 60 \<and> (2::nat) \<le> 3 \<and>
   exponential_backoff 2 1 60 True (1/2) \<le> min (1 * 2 ^ 2) 60 * (1 + 0.25) \<and>
   within_spec_band 2 1 60 (exponential_backoff 2 1 60 True (1/2)) \<and>
   min ((1::real) * 2 ^ 2) 60 \<le> min (1 * 2 ^ 3) 60"
  using exponential_backoff_bounds[of 1 60 "1/2" 2 3] by simp

text \<open>
  Claim C8 as the specification words it fails once the exponential has passed
  \<open>max_delay\<close>: at attempt 7 with \<open>base_delay = 1\<close> and \<open>max_delay = 60\<close> the band
  \<open>128 * (1 \<plusminus> 0.25)\<close> clamped to \<open>[0, 75]\<close> is the single point 75, while the sample
  with the middle draw is 60.
\<close>

theorem exponential_backoff_band_counterexample:
  "\<not> within_spec_band 7 1 60 (exponential_backoff 7 1 60 True (1/2))"
  by (simp add: within_spec_band_def spec_clamp_def exponential_backoff_def uniform_def Let_def)

subsection \<open>The retry loop\<close>

lemma upt3: "[0 ..< 3] = [0, Suc 0, 2]"
  by (simp add: upt_rec)

lemma retry_scenario:
  assumes "func 0 = Inl e0" "exceptions e0" "func 1 = Inl e1" "exceptions e1" "func 2 = Inr v"
  shows "result (retry_async 3 b m exceptions cb draw func) = Inr v \<and>
         calls (retry_async 3 b m exceptions cb draw func) = 3"
  using assms
  by (simp add: retry_async_def upt3 invoked_def slept_def finished_def Let_def)

lemma retry_permanent:
  assumes "1 \<le> k" "func 0 = Inl e" "\<not> exceptions e"
  shows "result (retry_async k b m exceptions cb draw func) = Inl (Propagated e) \<and>
         calls (retry_async k b m exceptions cb draw func) = 1 \<and>
         sleeps (retry_async k b m exceptions cb draw func) = []"
proof -
  have "0 < nat k" using assms(1) by simp
  then have "[0 ..< nat k] = 0 # [1 ..< nat k]" by (simp add: upt_rec)
  then show ?thesis using assms
    by (simp add: retry_async_def invoked_def finished_def)
qed

lemma loop_exhausted:
  assumes "j < n" "\<forall>i<n. \<exists>e. func i = Inl e \<and> exceptions e" "func (n - 1) = Inl e"
  shows "result (wrapper_loop (int n) b m exceptions cb draw func lst [j ..< n]) = Inl (Propagated e)
       \<and> calls (wrapper_loop (int n) b m exceptions cb draw func lst [j ..< n]) = n - j
       \<and> length (sleeps (wrapper_loop (int n) b m exceptions cb draw func lst [j ..< n])) = n - j - 1"
  using assms(1)
proof (induction "n - j" arbitrary: j lst)
  case 0
  then show ?case by simp
next
  case (Suc d)
  obtain e' where e': "func j = Inl e'" "exceptions e'" using assms(2) Suc.prems by blast
  have up: "[j ..< n] = j # [Suc j ..< n]" using Suc.prems by (simp add: upt_rec)
  show ?case
  proof (cases "Suc j = n")
    case True
    then have "int j = int n - 1" by auto
    moreover have "e' = e" using e' assms(3) True by auto
    ultimately show ?thesis using e' True up
      by (simp add: invoked_def finished_def)
  next
    case False
    then have lt: "Suc j < n" using Suc.prems by simp
    have d: "d = n - Suc j" using Suc.hyps(2) by simp
    have ne: "int j \<noteq> int n - 1" using False by auto
    note IH = Suc.hyps(1)[OF d lt, of "Some e'"]
    have ne': "\<not> int j = int n - 1" using ne by simp
    have step: "\<exists>dl cbr. wrapper_loop (int n) b m exceptions cb draw func lst [j ..< n] =
       invoked (slept dl cbr (wrapper_loop (int n) b m exceptions cb draw func (Some e') [Suc j ..< n]))"
      unfolding up wrapper_loop.simps e' Let_def using e'(2) ne'
      by (simp only: sum.case if_True if_False not_not simp_thms) blast
    then obtain dl cbr where st: "wrapper_loop (int n) b m exceptions cb draw func lst [j ..< n] =
       invoked (slept dl cbr (wrapper_loop (int n) b m exceptions cb draw func (Some e') [Suc j ..< n]))"
      by blast
    have a1: "Suc (n - Suc j) = n - j" using lt by simp
    have a2: "Suc (n - Suc j - 1) = n - j - 1" using lt by simp
    show ?thesis unfolding st using IH a1 a2
      by (simp add: invoked_def slept_def)
  qed
qed

lemma retry_exhausted:
  assumes "1 \<le> k" "\<forall>i<nat k. \<exists>e. func i = Inl e \<and> exceptions e" "func (nat k - 1) = Inl e"
  shows "result (retry_async k b m exceptions cb draw func) = Inl (Propagated e) \<and>
         calls (retry_async k b m exceptions cb draw func) = nat k"
proof -
  have k: "int (nat k) = k" "0 < nat k" using assms(1) by simp_all
  show ?thesis
    using loop_exhausted[OF k(2) assms(2) assms(3), of b m cb draw None]
    unfolding retry_async_def k(1) by simp
qed

text \<open>
  Claim C5.  With \<open>max_attempts = 3\<close>, an operation that raises a retryable error on its
  first two invocations and returns on the third makes the wrapper return that value
  after exactly 3 invocations.  An error outside the retryable set propagates after one
  invocation, with no sleep.  When each of the \<open>max_attempts\<close> invocations raises a
  retryable error, the error of the last invocation is raised after \<open>max_attempts\<close>
  invocations.
\<close>

theorem retry_async_outcomes:
  "(f1 0 = Inl e0 \<and> exceptions e0 \<and> f1 1 = Inl e1 \<and> exceptions e1 \<and> f1 2 = Inr v \<longrightarrow>
      result (retry_async 3 b m exceptions cb draw f1) = Inr v \<and>
      calls (retry_async 3 b m exceptions cb draw f1) = 3) \<and>
   (1 \<le> k \<and> f2 0 = Inl e \<and> \<not> exceptions e \<longrightarrow>
      result (retry_async k b m exceptions cb draw f2) = Inl (Propagated e) \<and>
      calls (retry_async k b m exceptions cb draw f2) = 1 \<and>
      sleeps (retry_async k b m exceptions cb draw f2) = []) \<and>
   (1 \<le> k \<and> (\<forall>i<nat k. \<exists>e. f3 i = Inl e \<and> exceptions e) \<and> f3 (nat k - 1) = Inl e' \<longrightarrow>
      result (retry_async k b m exceptions cb draw f3) = Inl (Propagated e') \<and>
      calls (retry_async k b m exceptions cb draw f3) = nat k)"
  using retry_scenario[where func = f1 and ?e0.0 = e0 and ?e1.0 = e1 and v = v
          and exceptions = exceptions and b = b and m = m and cb = cb and draw = draw]
        retry_permanent[where func = f2 and e = e and k = k
          and exceptions = exceptions and b = b and m = m and cb = cb and draw = draw]
        retry_exhausted[where func = f3 and e = e' and k = k
          and exceptions = exceptions and b = b and m = m and cb = cb and draw = draw]
  by blast

theorem retry_async_outcomes_witness:
  "result (retry_async 3 1 60 (\<lambda>e. e = ''timeout'') None (\<lambda>i. 1/2)
             (\<lambda>i. if i < 2 then Inl ''timeout'' else Inr (7::nat))) = Inr 7 \<and>
   calls (retry_async 3 1 60 (\<lambda>e. e = ''timeout'') None (\<lambda>i. 1/2)
             (\<lambda>i. if i < 2 then Inl ''timeout'' else Inr (7::nat))) = 3 \<and>
   result (retry_async 3 1 60 (\<lambda>e. e = ''timeout'') None (\<lambda>i. 1/2)
             (\<lambda>i. Inl ''denied'' :: string + nat)) = Inl (Propagated ''denied'') \<and>
   calls (retry_async 3 1 60 (\<lambda>e. e = ''timeout'') None (\<lambda>i. 1/2)
             (\<lambda>i. Inl ''denied'' :: string + nat)) = 1 \<and>
   result (retry_async 3 1 60 (\<lambda>e. e = ''timeout'') None (\<lambda>i. 1/2)
             (\<lambda>i. Inl ''timeout'' :: string + nat)) = Inl (Propagated ''timeout'') \<and>
   calls (retry_async 3 1 60 (\<lambda>e. e = ''timeout'') None (\<lambda>i. 1/2)
             (\<lambda>i. Inl ''timeout'' :: string + nat)) = 3"
  using retry_async_outcomes[where ?f1.0 = "\<lambda>i. if i < 2 then Inl ''timeout'' else Inr (7::nat)"
          and ?e0.0 = "''timeout''" and exceptions = "\<lambda>e. e = ''timeout''"
          and ?e1.0 = "''timeout''" and v = 7 and b = 1 and m = 60 and cb = None
          and draw = "\<lambda>i. 1/2" and k = 3 and ?f2.0 = "\<lambda>i. Inl ''denied''"
          and e = "''denied''" and ?f3.0 = "\<lambda>i. Inl ''timeout''" and e' = "''timeout''"]
  apply simp
  apply (elim conjE)
  apply (intro conjI)
       apply assumption+
  done

section \<open>Properties of utils/rate\_limiter.py\<close>

subsection \<open>What acquire does with a request it cannot serve\<close>

lemma attempt_config:
  "acquire_attempt n now rl = (a, rl', ts) \<Longrightarrow>
     max_requests rl' = max_requests rl \<and> time_window rl' = time_window rl \<and>
     burst_size rl' = burst_size rl"
  by (auto simp: acquire_attempt_def Let_def split: if_splits)

lemma attempt_over_burst:
  assumes "burst_size rl < n" "max_requests rl \<noteq> 0" "time_window rl \<noteq> 0"
  shows "\<exists>w rl' ts. acquire_attempt n now rl = (Wait w, rl', ts)"
proof -
  have "min (real_of_int (burst_size rl)) x < real_of_int n" for x
    using assms(1) by (simp add: min_less_iff_disj)
  then show ?thesis using assms(2,3)
    by (simp add: acquire_attempt_def Let_def not_le[symmetric])
qed

lemma acquire_over_burst:
  assumes "burst_size rl < n" "max_requests rl \<noteq> 0" "time_window rl \<noteq> 0"
  shows "outcome (acquire n clock rl) = StillWaiting"
  using assms
proof (induction clock arbitrary: rl)
  case Nil
  then show ?case by simp
next
  case (Cons now clock)
  obtain w rl' ts where a: "acquire_attempt n now rl = (Wait w, rl', ts)"
    using attempt_over_burst[OF Cons.prems] by blast
  have c: "burst_size rl' < n" "max_requests rl' \<noteq> 0" "time_window rl' \<noteq> 0"
    using attempt_config[OF a] Cons.prems by simp_all
  show ?case using Cons.IH[OF c] a by (simp add: Let_def)
qed

lemma attempt_raises:
  "acquire_attempt n now rl = (Raised e, rl', ts) \<Longrightarrow>
     e = ZeroDivisionError \<and> (time_window rl = 0 \<or> max_requests rl = 0)"
  by (auto simp: acquire_attempt_def Let_def split: if_splits)

lemma acquire_raises:
  "outcome (acquire n clock rl) = Failed e \<Longrightarrow>
     e = ZeroDivisionError \<and> (time_window rl = 0 \<or> max_requests rl = 0)"
proof (induction clock arbitrary: rl)
  case Nil
  then show ?case by simp
next
  case (Cons now clock)
  obtain a rl' ts where a: "acquire_attempt n now rl = (a, rl', ts)"
    by (cases "acquire_attempt n now rl") auto
  show ?case
  proof (cases a)
    case Acquired
    then show ?thesis using Cons.prems a by simp
  next
    case (Wait w)
    then have "outcome (acquire n clock rl') = Failed e" using Cons.prems a by (simp add: Let_def)
    then show ?thesis using Cons.IH[of rl'] attempt_config[OF a] by simp
  next
    case (Raised e')
    then show ?thesis using Cons.prems a attempt_raises[of n now rl e' rl' ts] by simp
  qed
qed

lemma attempt_zero_rate:
  assumes "max_requests rl = 0" "time_window rl \<noteq> 0"
     "min (of_int (burst_size rl)) (tokens rl) < (of_int n :: real)"
  shows "fst (acquire_attempt n now rl) = Raised ZeroDivisionError"
  using assms by (simp add: acquire_attempt_def Let_def not_le[symmetric])

text \<open>
  Claim C3, as the code has it.  \<open>acquire\<close> does not compare the request with
  \<open>burst_size\<close>: for \<open>n\<close> above \<open>burst_size\<close> (and non-zero \<open>max_requests\<close> and
  \<open>time_window\<close>) every pass finds too few tokens and waits again, whatever the clock
  does, so the call neither returns nor raises.  The only exception \<open>acquire\<close> raises is
  \<open>ZeroDivisionError\<close>, and only when \<open>time_window\<close> or \<open>max_requests\<close> is 0.
\<close>

theorem acquire_never_rejects:
  "(burst_size rl < n \<and> max_requests rl \<noteq> 0 \<and> time_window rl \<noteq> 0 \<longrightarrow>
      outcome (acquire n clock rl) = StillWaiting) \<and>
   (outcome (acquire n clock rl) = Failed e \<longrightarrow>
      e = ZeroDivisionError \<and> (time_window rl = 0 \<or> max_requests rl = 0))"
  using acquire_over_burst[of rl n clock] acquire_raises[of n clock rl e] by blast

theorem acquire_never_rejects_witness:
  "outcome (acquire 2 [0, 1] (RateLimiter 1 1 None 0)) = StillWaiting \<and>
   outcome (acquire 2 [0] (RateLimiter 0 1 (Some 1) 0)) = Failed ZeroDivisionError \<and>
   max_requests (RateLimiter 0 1 (Some 1) 0) = 0"
  using acquire_never_rejects[of "RateLimiter 1 1 None 0" 2 "[0, 1]" ZeroDivisionError]
        acquire_never_rejects[of "RateLimiter 0 1 (Some 1) 0" 2 "[0]" ZeroDivisionError]
  by (simp add: RateLimiter_def acquire_attempt_def Let_def)

text \<open>
  Claim C3 as the specification words it fails: a limiter with \<open>burst_size = 1\<close> asked for
  2 tokens is still waiting after every reading of the clock, and no error is raised.
\<close>

theorem acquire_over_burst_counterexample:
  "outcome (acquire 2 [0, 1, 2, 3] (RateLimiter 1 1 None 0)) = StillWaiting"
  by (simp add: RateLimiter_def acquire_attempt_def Let_def)

subsection \<open>Bounds on the token count\<close>

lemma attempt_bounds:
  assumes ok: "bucket_ok rl" and t: "last_update rl \<le> now" and n: "0 < n"
      and a: "acquire_attempt n now rl = (r, rl', ts)"
  shows "bucket_ok rl' \<and> last_update rl' = now \<and> burst_size rl' = burst_size rl \<and>
         list_all (\<lambda>t. 0 \<le> t \<and> t \<le> of_int (burst_size rl)) ts"
proof -
  define refill where "refill = (now - last_update rl) * (of_int (max_requests rl) / time_window rl)"
  define x where "x = min (of_int (burst_size rl)) (tokens rl + refill)"
  have "0 \<le> of_int (max_requests rl) / time_window rl" using ok by (simp add: bucket_ok_def)
  moreover have "0 \<le> now - last_update rl" using t by simp
  ultimately have r0: "0 \<le> refill" unfolding refill_def by (rule mult_nonneg_nonneg[rotated])
  have b0: "(0::real) \<le> of_int (burst_size rl)" using ok by (simp add: bucket_ok_def)
  have x0: "0 \<le> x" unfolding x_def using r0 b0 ok by (simp add: bucket_ok_def)
  have xb: "x \<le> of_int (burst_size rl)" unfolding x_def by simp
  have tw: "time_window rl \<noteq> 0" using ok by (simp add: bucket_ok_def)
  have n0: "(0::real) < of_int n" using n by simp
  show ?thesis
    using a x0 xb tw n0 ok
    unfolding acquire_attempt_def Let_def refill_def[symmetric] x_def[symmetric]
    by (auto simp: bucket_ok_def split: if_splits)
qed

lemma acquire_bounds:
  assumes "bucket_ok rl" "sorted (last_update rl # clock)" "0 < n"
  shows "bucket_ok (limiter_after (acquire n clock rl)) \<and>
         burst_size (limiter_after (acquire n clock rl)) = burst_size rl \<and>
         sorted (last_update (limiter_after (acquire n clock rl)) # clock_after (acquire n clock rl)) \<and>
         list_all (\<lambda>t. 0 \<le> t \<and> t \<le> of_int (burst_size rl)) (assigned (acquire n clock rl))"
  using assms
proof (induction clock arbitrary: rl)
  case Nil
  then show ?case by simp
next
  case (Cons now clock)
  obtain r rl' ts where a: "acquire_attempt n now rl = (r, rl', ts)"
    by (cases "acquire_attempt n now rl") auto
  have le: "last_update rl \<le> now" using Cons.prems(2) by simp
  note b = attempt_bounds[OF Cons.prems(1) le Cons.prems(3) a]
  have s: "sorted (last_update rl' # clock)" using b Cons.prems(2) by simp
  show ?case
  proof (cases r)
    case Acquired
    then show ?thesis using a b s by simp
  next
    case (Wait w)
    note IH = Cons.IH[OF _ s Cons.prems(3)]
    show ?thesis using Wait a b IH by (simp add: Let_def)
  next
    case (Raised e)
    then show ?thesis using a b s by simp
  qed
qed

lemma acquire_calls_bounds:
  assumes "bucket_ok rl" "sorted (last_update rl # clock)"
     "list_all (\<lambda>n. 0 < n \<and> n \<le> burst_size rl) ns"
  shows "list_all (\<lambda>t. 0 \<le> t \<and> t \<le> of_int (burst_size rl)) (acquire_calls ns clock rl)"
  using assms
proof (induction ns arbitrary: rl clock)
  case Nil
  then show ?case by simp
next
  case (Cons n ns)
  have n: "0 < n" using Cons.prems(3) by simp
  note b = acquire_bounds[OF Cons.prems(1,2) n]
  have eq: "burst_size (limiter_after (acquire n clock rl)) = burst_size rl" using b by blast
  have ns: "list_all (\<lambda>k. 0 < k \<and> k \<le> burst_size (limiter_after (acquire n clock rl))) ns"
    unfolding eq using Cons.prems(3) by simp
  have "list_all (\<lambda>t. 0 \<le> t \<and> t \<le> real_of_int (burst_size (limiter_after (acquire n clock rl))))
     (acquire_calls ns (clock_after (acquire n clock rl)) (limiter_after (acquire n clock rl)))"
    using Cons.IH[OF _ _ ns] b by blast
  then have "list_all (\<lambda>t. 0 \<le> t \<and> t \<le> real_of_int (burst_size rl))
     (acquire_calls ns (clock_after (acquire n clock rl)) (limiter_after (acquire n clock rl)))"
    unfolding eq .
  moreover have "list_all (\<lambda>t. 0 \<le> t \<and> t \<le> real_of_int (burst_size rl)) (assigned (acquire n clock rl))"
    using b by blast
  ultimately show ?case by (simp add: Let_def)
qed

lemma RateLimiter_ok:
  assumes "0 < mr" "0 < tw" "case burst of None \<Rightarrow> True | Some b \<Rightarrow> mr \<le> b"
  shows "bucket_ok (RateLimiter mr tw burst now0) \<and> last_update (RateLimiter mr tw burst now0) = now0"
  using assms by (auto simp: bucket_ok_def RateLimiter_def Let_def split: option.splits)

text \<open>
  Claim C4.  For a limiter constructed with positive \<open>max_requests\<close> and \<open>time_window\<close>
  and a burst size not below \<open>max_requests\<close>, any sequence of \<open>acquire\<close> calls with
  \<open>0 < n \<le> burst_size\<close> on a non-decreasing clock assigns to \<open>tokens\<close> only values in
  \<open>[0, burst_size]\<close>, at every refill and every decrement.
\<close>

theorem acquire_tokens_bounded:
  assumes "0 < mr" "0 < tw" "case burst of None \<Rightarrow> True | Some b \<Rightarrow> mr \<le> b"
      and "sorted (now0 # clock)"
      and "\<forall>n \<in> set ns. 0 < n \<and> n \<le> burst_size (RateLimiter mr tw burst now0)"
  shows "\<forall>t \<in> set (acquire_calls ns clock (RateLimiter mr tw burst now0)).
           0 \<le> t \<and> t \<le> of_int (burst_size (RateLimiter mr tw burst now0))"
proof -
  note ok = RateLimiter_ok[OF assms(1-3), of now0]
  have s: "sorted (last_update (RateLimiter mr tw burst now0) # clock)" using ok assms(4) by simp
  have ns: "list_all (\<lambda>n. 0 < n \<and> n \<le> burst_size (RateLimiter mr tw burst now0)) ns"
    using assms(5) by (simp add: list_all_iff)
  show ?thesis using acquire_calls_bounds[OF _ s ns] ok by (simp add: list_all_iff)
qed

theorem acquire_tokens_bounded_witness:
  "acquire_calls [1, 2, 2] [0, 1/2, 1, 3] (RateLimiter 2 1 None 0) = [2, 1, 2, 0, 1, 2, 0] \<and>
   list_all (\<lambda>t. 0 \<le> t \<and> t \<le> of_int (burst_size (RateLimiter 2 1 None 0)))
     (acquire_calls [1, 2, 2] [0, 1/2, 1, 3] (RateLimiter 2 1 None 0))"
proof -
  have h: "sorted ((0::real) # [0, 1/2, 1, 3])"
    "\<forall>n \<in> set [1, 2, 2]. 0 < n \<and> n \<le> burst_size (RateLimiter 2 1 None 0)"
    by (simp_all add: RateLimiter_def)
  have v: "acquire_calls [1, 2, 2] [0, 1/2, 1, 3] (RateLimiter 2 1 None 0) = [2, 1, 2, 0, 1, 2, 0]"
    by (simp add: RateLimiter_def acquire_attempt_def Let_def)
  have "\<forall>t \<in> set (acquire_calls [1, 2, 2] [0, 1/2, 1, 3] (RateLimiter 2 1 None 0)).
      0 \<le> t \<and> t \<le> of_int (burst_size (RateLimiter 2 1 None 0))"
    using acquire_tokens_bounded[of 2 1 None 0 "[0, 1/2, 1, 3]" "[1, 2, 2]", OF _ _ _ h]
    by simp
  then show ?thesis using v by (simp only: list_all_iff)
qed

subsection \<open>The adaptive limiter\<close>

lemma update_limiter_fields [simp]:
  "current_rate (update_limiter now a) = current_rate a"
  "min_rate (update_limiter now a) = min_rate a"
  "max_rate (update_limiter now a) = max_rate a"
  "increase_factor (update_limiter now a) = increase_factor a"
  "decrease_factor (update_limiter now a) = decrease_factor a"
  "consecutive_successes (update_limiter now a) = consecutive_successes a"
  by (simp_all add: update_limiter_def)

lemma increase_rate_fields:
  "current_rate (increase_rate now a) = min (max_rate a) (current_rate a * increase_factor a)"
  "min_rate (increase_rate now a) = min_rate a"
  "max_rate (increase_rate now a) = max_rate a"
  "increase_factor (increase_rate now a) = increase_factor a"
  "decrease_factor (increase_rate now a) = decrease_factor a"
  "consecutive_successes (increase_rate now a) = consecutive_successes a"
  by (simp_all add: increase_rate_def Let_def)

lemma decrease_rate_fields:
  "current_rate (decrease_rate now a) = max (min_rate a) (current_rate a * decrease_factor a)"
  "min_rate (decrease_rate now a) = min_rate a"
  "max_rate (decrease_rate now a) = max_rate a"
  "increase_factor (decrease_rate now a) = increase_factor a"
  "decrease_factor (decrease_rate now a) = decrease_factor a"
  "consecutive_successes (decrease_rate now a) = consecutive_successes a"
  by (simp_all add: decrease_rate_def Let_def)

lemma on_success_below:
  "consecutive_successes a + 1 < 10 \<Longrightarrow>
     on_success now a = a\<lparr>consecutive_successes := consecutive_successes a + 1\<rparr>"
  by (simp add: on_success_def Let_def)

lemma on_successes_below:
  "0 \<le> consecutive_successes a \<Longrightarrow> consecutive_successes a + int (length nows) < 10 \<Longrightarrow>
     on_successes nows a = a\<lparr>consecutive_successes := consecutive_successes a + int (length nows)\<rparr>"
proof (induction nows arbitrary: a)
  case Nil
  then show ?case by simp
next
  case (Cons now nows)
  have s: "on_success now a = a\<lparr>consecutive_successes := consecutive_successes a + 1\<rparr>"
    using Cons.prems by (simp add: on_success_below)
  show ?case using Cons.prems by (simp add: s Cons.IH)
qed

lemma on_success_tenth:
  "consecutive_successes a = 9 \<Longrightarrow>
     current_rate (on_success now a) = min (max_rate a) (current_rate a * increase_factor a) \<and>
     consecutive_successes (on_success now a) = 0"
  by (simp add: on_success_def Let_def increase_rate_fields)

lemma on_successes_snoc: "on_successes (nows @ [now]) a = on_success now (on_successes nows a)"
  by (induction nows arbitrary: a) simp_all

lemma ten_successes:
  assumes "consecutive_successes a = 0" "length nows = 10"
  shows "current_rate (on_successes nows a) = min (max_rate a) (current_rate a * increase_factor a) \<and>
         consecutive_successes (on_successes nows a) = 0"
proof -
  obtain pre now where sp: "nows = pre @ [now]" "length pre = 9"
    using assms(2) by (cases nows rule: rev_cases) auto
  have p: "on_successes pre a = a\<lparr>consecutive_successes := 9\<rparr>"
    using on_successes_below[of a pre] assms(1) sp(2) by simp
  show ?thesis unfolding sp(1) on_successes_snoc p
    using on_success_tenth[of "a\<lparr>consecutive_successes := 9\<rparr>" now] by simp
qed

lemma on_rate_limit_rate:
  "current_rate (on_rate_limit now a) = max (min_rate a) (current_rate a * decrease_factor a) \<and>
   consecutive_successes (on_rate_limit now a) = 0"
  by (simp add: on_rate_limit_def decrease_rate_fields)

lemma on_success_rate_cases:
  "current_rate (on_success now a) = current_rate a \<or>
   current_rate (on_success now a) = min (max_rate a) (current_rate a * increase_factor a)"
  by (simp add: on_success_def Let_def increase_rate_fields)

lemma on_success_params:
  "min_rate (on_success now a) = min_rate a \<and> max_rate (on_success now a) = max_rate a"
  by (simp add: on_success_def Let_def increase_rate_fields)

lemma on_rate_limit_params:
  "min_rate (on_rate_limit now a) = min_rate a \<and> max_rate (on_rate_limit now a) = max_rate a"
  by (simp add: on_rate_limit_def decrease_rate_fields)

lemma rate_in_range:
  assumes "0 \<le> current_rate a" "min_rate a \<le> current_rate a" "current_rate a \<le> max_rate a"
      "1 < increase_factor a" "decrease_factor a < 1"
  shows "min_rate a \<le> current_rate (on_success now a) \<and> current_rate (on_success now a) \<le> max_rate a \<and>
         min_rate a \<le> current_rate (on_rate_limit now a) \<and> current_rate (on_rate_limit now a) \<le> max_rate a"
proof -
  have up: "current_rate a * 1 \<le> current_rate a * increase_factor a"
    using assms(1,4) by (intro mult_left_mono) simp_all
  have "current_rate a * decrease_factor a \<le> current_rate a * 1"
    using assms(1,5) by (intro mult_left_mono) simp_all
  then have dn: "current_rate a * decrease_factor a \<le> max_rate a" using assms(3) by simp
  have lo: "min_rate a \<le> min (max_rate a) (current_rate a * increase_factor a)"
    using up assms(2,3) by simp
  have 1: "min_rate a \<le> current_rate (on_success now a)"
    using on_success_rate_cases[of now a] lo assms(2) by auto
  have 2: "current_rate (on_success now a) \<le> max_rate a"
    using on_success_rate_cases[of now a] assms(3) by auto
  have 3: "min_rate a \<le> current_rate (on_rate_limit now a)"
    by (simp add: on_rate_limit_rate)
  have 4: "current_rate (on_rate_limit now a) \<le> max_rate a"
    using dn assms(2,3) by (simp add: on_rate_limit_rate)
  show ?thesis using 1 2 3 4 by blast
qed

text \<open>
  Claim C7.  Starting from a counter of 0, ten \<open>on_success\<close> calls in a row leave
  \<open>current_rate\<close> multiplied by \<open>increase_factor\<close> and clamped to \<open>max_rate\<close>, with the
  counter back at 0.  One \<open>on_rate_limit\<close> call leaves \<open>current_rate\<close> multiplied by
  \<open>decrease_factor\<close> and clamped to \<open>min_rate\<close>, with the counter at 0.  With
  \<open>increase_factor > 1\<close>, \<open>decrease_factor < 1\<close> and rates that are not negative, every
  such call keeps \<open>current_rate\<close> between \<open>min_rate\<close> and \<open>max_rate\<close>, which do not change.
\<close>

theorem adaptive_rate_adjustment:
  "(consecutive_successes a = 0 \<and> length nows = 10 \<longrightarrow>
      current_rate (on_successes nows a) = min (max_rate a) (current_rate a * increase_factor a) \<and>
      consecutive_successes (on_successes nows a) = 0) \<and>
   current_rate (on_rate_limit now a) = max (min_rate a) (current_rate a * decrease_factor a) \<and>
   consecutive_successes (on_rate_limit now a) = 0 \<and>
   (0 \<le> min_rate a \<and> min_rate a \<le> current_rate a \<and> current_rate a \<le> max_rate a \<and>
    1 < increase_factor a \<and> decrease_factor a < 1 \<longrightarrow>
      min_rate a \<le> current_rate (on_success now a) \<and>
      current_rate (on_success now a) \<le> max_rate a \<and>
      min_rate a \<le> current_rate (on_rate_limit now a) \<and>
      current_rate (on_rate_limit now a) \<le> max_rate a \<and>
      min_rate (on_success now a) = min_rate a \<and> max_rate (on_success now a) = max_rate a \<and>
      min_rate (on_rate_limit now a) = min_rate a \<and> max_rate (on_rate_limit now a) = max_rate a)"
proof -
  have "0 \<le> current_rate a" if "0 \<le> min_rate a" "min_rate a \<le> current_rate a"
    using that by linarith
  then show ?thesis
    using ten_successes[of a nows] on_rate_limit_rate[of now a] rate_in_range[of a now]
      on_success_params[of now a] on_rate_limit_params[of now a]
    by blast
qed

theorem adaptive_rate_adjustment_witness:
  "current_rate (on_successes [1, 2, 3, 4, 5, 6, 7, 8, 9, 10]
      (AdaptiveRateLimiter 10 1 100 (11/10) (1/2) 0)) = 11 \<and>
   consecutive_successes (on_successes [1, 2, 3, 4, 5, 6, 7, 8, 9, 10]
      (AdaptiveRateLimiter 10 1 100 (11/10) (1/2) 0)) = 0 \<and>
   current_rate (on_rate_limit 1 (AdaptiveRateLimiter 10 1 100 (11/10) (1/2) 0)) = 5 \<and>
   current_rate (on_success 1 (AdaptiveRateLimiter 10 1 100 (11/10) (1/2) 0)) \<le> 100"
  using adaptive_rate_adjustment[of "AdaptiveRateLimiter 10 1 100 (11/10) (1/2) 0"
          "[1, 2, 3, 4, 5, 6, 7, 8, 9, 10]" 1]
  by (simp add: AdaptiveRateLimiter_def)

subsection \<open>A limiter whose rate has been truncated to zero\<close>

lemma constructed_synced: "limiter_synced (AdaptiveRateLimiter r0 minr maxr inc dec now0)"
  by (simp add: limiter_synced_def AdaptiveRateLimiter_def RateLimiter_def Let_def)

lemma on_rate_limit_synced: "limiter_synced a \<Longrightarrow> limiter_synced (on_rate_limit now a)"
  by (simp add: limiter_synced_def on_rate_limit_def decrease_rate_def update_limiter_def
      RateLimiter_def Let_def)

lemma on_rate_limit_factor: "decrease_factor (on_rate_limit now a) = decrease_factor a"
  by (simp add: on_rate_limit_def decrease_rate_fields)

lemma on_rate_limits_decay:
  assumes "0 \<le> current_rate a" "0 \<le> decrease_factor a" "decrease_factor a < 1" "limiter_synced a"
  shows "0 \<le> current_rate (on_rate_limits nows a) \<and>
         current_rate (on_rate_limits nows a) \<le>
           max (max (min_rate a) 0) (current_rate a * decrease_factor a ^ length nows) \<and>
         limiter_synced (on_rate_limits nows a)"
  using assms
proof (induction nows arbitrary: a)
  case Nil
  then show ?case by (simp add: le_max_iff_disj)
next
  case (Cons now nows)
  define a1 where "a1 = on_rate_limit now a"
  define d where "d = decrease_factor a"
  define M where "M = max (min_rate a) 0"
  define p where "p = d ^ length nows"
  have r1: "current_rate a1 = max (min_rate a) (current_rate a * d)"
    by (simp add: a1_def d_def on_rate_limit_rate)
  have cd: "0 \<le> current_rate a * d" using Cons.prems by (simp add: d_def)
  have r1pos: "0 \<le> current_rate a1" using cd by (simp add: r1 le_max_iff_disj)
  have par: "decrease_factor a1 = d" "min_rate a1 = min_rate a"
    by (simp_all add: a1_def d_def on_rate_limit_factor on_rate_limit_params)
  have sy: "limiter_synced a1" using Cons.prems(4) by (simp add: a1_def on_rate_limit_synced)
  have IH: "0 \<le> current_rate (on_rate_limits nows a1) \<and>
         current_rate (on_rate_limits nows a1) \<le> max M (current_rate a1 * p) \<and>
         limiter_synced (on_rate_limits nows a1)"
    using Cons.IH[OF r1pos _ _ sy] Cons.prems(2,3) unfolding par M_def p_def d_def by simp
  have p0: "0 \<le> p" using Cons.prems(2) by (simp add: p_def d_def)
  have p1: "p \<le> 1" using Cons.prems(2,3) by (simp add: p_def d_def power_le_one)
  have M0: "0 \<le> M" by (simp add: M_def)
  have r1le: "current_rate a1 \<le> max M (current_rate a * d)"
    unfolding r1 M_def by (auto simp: max_def)
  have "current_rate a1 * p \<le> max M (current_rate a * d) * p"
    using r1le p0 by (rule mult_right_mono)
  also have "\<dots> = max (M * p) (current_rate a * d * p)"
    using p0 by (simp add: max_mult_distrib_right)
  also have "\<dots> \<le> max M (current_rate a * d * p)"
  proof -
    have "M * p \<le> M * 1" using M0 p1 by (intro mult_left_mono) simp_all
    then have "M * p \<le> M" by simp
    then show ?thesis by (auto simp: max_def)
  qed
  finally have step: "current_rate a1 * p \<le> max M (current_rate a * d * p)" .
  have "max M (current_rate a1 * p) \<le> max M (current_rate a * d * p)"
    using step by (auto simp: max_def)
  then have "current_rate (on_rate_limits nows a1) \<le> max M (current_rate a * d * p)"
    using IH by linarith
  then show ?case using IH
    unfolding a1_def M_def p_def d_def by (simp add: mult.assoc)
qed

lemma py_int_small: "0 \<le> x \<Longrightarrow> x < 1 \<Longrightarrow> py_int x = 0"
  by (simp add: py_int_def floor_eq_iff)

lemma decay_below_one:
  assumes "0 \<le> (r::real)" "0 \<le> d" "d < 1"
  shows "\<exists>K. \<forall>k\<ge>K. r * d ^ k < 1"
proof (cases "r = 0")
  case True
  then show ?thesis by simp
next
  case False
  then have r: "0 < r" using assms(1) by simp
  then obtain K where K: "d ^ K < 1 / r"
    using real_arch_pow_inv[of "1 / r" d] assms(3) by auto
  have "r * d ^ k < 1" if "K \<le> k" for k
  proof -
    have "d ^ k \<le> d ^ K" using that assms(2,3) by (simp add: power_decreasing)
    then have "d ^ k < 1 / r" using K by linarith
    then show ?thesis using r by (simp add: field_simps)
  qed
  then show ?thesis by blast
qed

lemma rate_limits_reach_zero:
  assumes "0 \<le> r0" "0 \<le> dec" "dec < 1" "minr < 1"
  shows "\<exists>K. \<forall>nows. K \<le> length nows \<longrightarrow>
           max_requests (limiter (on_rate_limits nows (AdaptiveRateLimiter r0 minr maxr inc dec now0))) = 0 \<and>
           time_window (limiter (on_rate_limits nows (AdaptiveRateLimiter r0 minr maxr inc dec now0))) = 1"
proof -
  define a where "a = AdaptiveRateLimiter r0 minr maxr inc dec now0"
  have f: "current_rate a = r0" "decrease_factor a = dec" "min_rate a = minr"
    by (simp_all add: a_def AdaptiveRateLimiter_def)
  obtain K where K: "\<forall>k\<ge>K. r0 * dec ^ k < 1" using decay_below_one[OF assms(1-3)] by blast
  have "max_requests (limiter (on_rate_limits nows a)) = 0 \<and>
        time_window (limiter (on_rate_limits nows a)) = 1" if len: "K \<le> length nows" for nows
  proof -
    have d: "0 \<le> current_rate (on_rate_limits nows a) \<and>
         current_rate (on_rate_limits nows a) \<le> max (max minr 0) (r0 * dec ^ length nows) \<and>
         limiter_synced (on_rate_limits nows a)"
      using on_rate_limits_decay[of a nows] assms constructed_synced unfolding f a_def[symmetric]
      by (simp add: a_def constructed_synced)
    have "max (max minr 0) (r0 * dec ^ length nows) < 1" using K len assms(4) by simp
    then have "current_rate (on_rate_limits nows a) < 1" using d by linarith
    then have "py_int (current_rate (on_rate_limits nows a)) = 0" using d by (simp add: py_int_small)
    then show ?thesis using d by (simp add: limiter_synced_def)
  qed
  then show ?thesis unfolding a_def by blast
qed

lemma acquire_zero_rate:
  assumes "max_requests rl = 0" "time_window rl \<noteq> 0"
     "min (of_int (burst_size rl)) (tokens rl) < (of_int n :: real)"
  shows "outcome (acquire n (now # clock) rl) = Failed ZeroDivisionError"
proof -
  obtain r rl' ts where a: "acquire_attempt n now rl = (r, rl', ts)"
    by (cases "acquire_attempt n now rl") auto
  then have "r = Raised ZeroDivisionError" using attempt_zero_rate[OF assms, of now] by simp
  then show ?thesis using a by simp
qed

lemma acquire_positive_rate:
  assumes "1 \<le> max_requests rl" "time_window rl \<noteq> 0"
  shows "outcome (acquire n clock rl) \<noteq> Failed e"
  using acquire_raises[of n clock rl e] assms by auto

lemma zero_rate_scenario:
  "max_requests (limiter (on_rate_limits [1, 2, 3, 4, 5] (AdaptiveRateLimiter 10 (1/2) 100 (11/10) (1/2) 0))) = 0 \<and>
   outcome (adaptive_acquire [6] (on_rate_limits [1, 2, 3, 4, 5] (AdaptiveRateLimiter 10 (1/2) 100 (11/10) (1/2) 0))) = Returned \<and>
   outcome (acquire 1 [7] (limiter_after (adaptive_acquire [6] (on_rate_limits [1, 2, 3, 4, 5] (AdaptiveRateLimiter 10 (1/2) 100 (11/10) (1/2) 0))))) = Failed ZeroDivisionError"
  by (simp add: AdaptiveRateLimiter_def RateLimiter_def on_rate_limit_def decrease_rate_def
      update_limiter_def py_int_def adaptive_acquire_def acquire_attempt_def Let_def)

text \<open>
  Claim C10.  A limiter with \<open>max_requests = 0\<close> (and a non-zero \<open>time_window\<close>) raises
  \<open>ZeroDivisionError\<close> in the first pass that finds fewer tokens than requested.  An
  adaptive limiter built with a non-negative initial rate, a decrease factor in \<open>[0, 1)\<close>
  and \<open>min_rate < 1\<close> has, after enough \<open>on_rate_limit\<close> calls, a wrapped limiter with
  \<open>max_requests = int(current_rate) = 0\<close> and \<open>time_window = 1\<close>.  With
  \<open>max_requests \<ge> 1\<close> and a non-zero \<open>time_window\<close>, \<open>acquire\<close> raises nothing.
\<close>

theorem zero_rate_acquire_raises:
  "(max_requests rl = 0 \<and> time_window rl \<noteq> 0 \<and>
    min (of_int (burst_size rl)) (tokens rl) < (of_int n :: real) \<longrightarrow>
      outcome (acquire n (now # clock) rl) = Failed ZeroDivisionError) \<and>
   (0 \<le> r0 \<and> 0 \<le> dec \<and> dec < 1 \<and> minr < 1 \<longrightarrow>
      (\<exists>K. \<forall>nows. K \<le> length nows \<longrightarrow>
         max_requests (limiter (on_rate_limits nows
            (AdaptiveRateLimiter r0 minr maxr inc dec now0))) = 0 \<and>
         time_window (limiter (on_rate_limits nows
            (AdaptiveRateLimiter r0 minr maxr inc dec now0))) = 1)) \<and>
   (1 \<le> max_requests rl2 \<and> time_window rl2 \<noteq> 0 \<longrightarrow>
      outcome (acquire n2 clock2 rl2) \<noteq> Failed e)"
  using acquire_zero_rate[of rl n now clock]
        rate_limits_reach_zero[of r0 dec minr maxr inc now0]
        acquire_positive_rate[of rl2 n2 clock2 e]
  by blast

theorem zero_rate_acquire_raises_witness:
  "outcome (acquire 2 [1] (RateLimiter 0 1 (Some 1) 0)) = Failed ZeroDivisionError \<and>
   (\<exists>nows. max_requests (limiter (on_rate_limits nows
               (AdaptiveRateLimiter 10 (1/2) 100 (11/10) (1/2) 0))) = 0 \<and>
            time_window (limiter (on_rate_limits nows
               (AdaptiveRateLimiter 10 (1/2) 100 (11/10) (1/2) 0))) = 1) \<and>
   outcome (acquire 1 [1] (RateLimiter 1 1 None 0)) \<noteq> Failed ZeroDivisionError"
proof -
  have h: "max_requests (RateLimiter 0 1 (Some 1) 0) = 0 \<and> time_window (RateLimiter 0 1 (Some 1) 0) \<noteq> 0 \<and>
      min (of_int (burst_size (RateLimiter 0 1 (Some 1) 0))) (tokens (RateLimiter 0 1 (Some 1) 0))
        < (of_int 2 :: real)"
    "(0::real) \<le> 10 \<and> (0::real) \<le> 1/2 \<and> (1/2::real) < 1 \<and> (1/2::real) < 1"
    "1 \<le> max_requests (RateLimiter 1 1 None 0) \<and> time_window (RateLimiter 1 1 None 0) \<noteq> 0"
    by (simp_all add: RateLimiter_def)
  note t = zero_rate_acquire_raises[of "RateLimiter 0 1 (Some 1) 0" 2 1 "[]" 10 "1/2" "1/2"
            100 "11/10" 0 "RateLimiter 1 1 None 0" 1 "[1]" ZeroDivisionError]
  have a: "outcome (acquire 2 [1] (RateLimiter 0 1 (Some 1) 0)) = Failed ZeroDivisionError"
    using t h(1) by blast
  obtain K where K: "\<forall>nows. K \<le> length nows \<longrightarrow>
      max_requests (limiter (on_rate_limits nows
         (AdaptiveRateLimiter 10 (1/2) 100 (11/10) (1/2) 0))) = 0 \<and>
      time_window (limiter (on_rate_limits nows
         (AdaptiveRateLimiter 10 (1/2) 100 (11/10) (1/2) 0))) = 1"
    using t h(2) by blast
  have "K \<le> length (replicate K (0::real))" by simp
  then have b: "\<exists>nows. max_requests (limiter (on_rate_limits nows
               (AdaptiveRateLimiter 10 (1/2) 100 (11/10) (1/2) 0))) = 0 \<and>
            time_window (limiter (on_rate_limits nows
               (AdaptiveRateLimiter 10 (1/2) 100 (11/10) (1/2) 0))) = 1"
    using K by blast
  have c: "outcome (acquire 1 [1] (RateLimiter 1 1 None 0)) \<noteq> Failed ZeroDivisionError"
    using t h(3) by blast
  show ?thesis using a b c by blast
qed

section \<open>Properties of redis\_storage.py\<close>

subsection \<open>Evaluating the storage functions\<close>

lemmas run_simps = import_from_json_def save_farms_batch_def farm_commands_def dict_get_def
  dict_items_def py_len_def py_iter_def website_usable_def lower_char_def redis_encode_def
  execute_def encodable_def clear_all_data_def Let_def empty_store_def

lemma update_text_id:
  "update_farm_description (JStr fid) d now st =
   (True, st\<lparr>sets := (sets st)(FARMS_PROCESSED := insert fid (sets st FARMS_PROCESSED),
                             FARMS_NEEDS_DESCRIPTION := sets st FARMS_NEEDS_DESCRIPTION - {fid}),
             hashes := (hashes st)(fid := (hashes st fid)(''description'' \<mapsto> JStr d,
                                                           ''updatedAt'' \<mapsto> JStr now))\<rparr>)"
  by (simp add: update_farm_description_def execute_def encodable_def redis_encode_def
      fun_upd_twist)

subsection \<open>Importing the same snapshot twice\<close>

lemma apply_sets_cong:
  "sets st1 = sets st2 \<Longrightarrow> sets (apply_command st1 c) = sets (apply_command st2 c)"
  by (cases c) (auto split: sum.splits)

lemma foldl_sets_cong:
  "sets st1 = sets st2 \<Longrightarrow>
     sets (foldl apply_command st1 cmds) = sets (foldl apply_command st2 cmds)"
proof (induction cmds arbitrary: st1 st2)
  case Nil
  then show ?case by simp
next
  case (Cons c cmds)
  show ?case using Cons.IH[OF apply_sets_cong[OF Cons.prems, of c]] by simp
qed

lemma save_sets_cong:
  "sets st1 = sets st2 \<Longrightarrow>
     sets (snd (save_farms_batch farms st1)) = sets (snd (save_farms_batch farms st2))"
proof -
  assume eq: "sets st1 = sets st2"
  show ?thesis
  proof (cases "queue_farms farms")
    case (Inl e)
    then show ?thesis using eq by (simp add: save_farms_batch_def)
  next
    case (Inr q)
    obtain cmds skipped where q: "q = (cmds, skipped)" by (cases q)
    show ?thesis
    proof (cases "list_all encodable cmds")
      case True
      then show ?thesis using Inr q foldl_sets_cong[OF eq, of cmds]
        by (simp add: save_farms_batch_def execute_def)
    next
      case False
      then show ?thesis using Inr q eq
        by (simp add: save_farms_batch_def execute_def)
    qed
  qed
qed

lemma import_sets_idem:
  "sets (snd (import_from_json d (snd (import_from_json d st)))) = sets (snd (import_from_json d st))"
proof (cases d)
  case None
  then show ?thesis by (simp add: import_from_json_def)
next
  case (Some doc)
  show ?thesis
  proof (cases "py_len doc")
    case (Inl e)
    then show ?thesis using Some by (simp add: import_from_json_def)
  next
    case (Inr k)
    have c: "sets (clear_all_data s1) = sets (clear_all_data s2)" for s1 s2
      by (simp add: clear_all_data_def)
    show ?thesis using Some Inr
      by (simp add: import_from_json_def save_sets_cong[OF c])
  qed
qed

text \<open>
  Claim C9.  Importing a snapshot and importing it again leaves the counts of
  \<open>get_pipeline_status\<close> (total, processed, failed, needs description) as they were after
  the first import, whatever the document and the store before.
\<close>

theorem import_idempotent: "get_pipeline_status (snd (import_from_json d (snd (import_from_json d st))))
  = get_pipeline_status (snd (import_from_json d st))"
  by (simp add: get_pipeline_status_def import_sets_idem)

theorem import_idempotent_witness:
  "get_pipeline_status (snd (import_from_json (Some (JArr [example_farm ''f1'']))
      (snd (import_from_json (Some (JArr [example_farm ''f1''])) empty_store))))
   = get_pipeline_status (snd (import_from_json (Some (JArr [example_farm ''f1''])) empty_store))"
  using import_idempotent[of "Some (JArr [example_farm ''f1''])" empty_store] by simp

subsection \<open>The index sets after an import\<close>

















subsection \<open>Updating a description\<close>

text \<open>
  Claim C2, as the code has it.  \<open>update_farm_description\<close> does not look at the current
  status: for every store and every text id it returns \<open>True\<close>, writes the description
  and the time stamp, adds the id to the processed set and removes it from the
  needs-description set, all in one pipeline; the other sets stay as they are.
\<close>

theorem update_farm_description_overwrites:
  "update_farm_description (JStr fid) d now st =
   (True, st\<lparr>sets := (sets st)(FARMS_PROCESSED := insert fid (sets st FARMS_PROCESSED),
                             FARMS_NEEDS_DESCRIPTION := sets st FARMS_NEEDS_DESCRIPTION - {fid}),
             hashes := (hashes st)(fid := (hashes st fid)(''description'' \<mapsto> JStr d,
                                                           ''updatedAt'' \<mapsto> JStr now))\<rparr>)"
  by (rule update_text_id)

theorem update_farm_description_overwrites_witness:
  "fst (update_farm_description (JStr ''ghost'') ''text'' ''2025-01-02T00:00:00'' empty_store) = True \<and>
   sets (snd (update_farm_description (JStr ''ghost'') ''text'' ''2025-01-02T00:00:00'' empty_store))
     FARMS_PROCESSED = {''ghost''}"
  using update_farm_description_overwrites[of "''ghost''" "''text''" "''2025-01-02T00:00:00''" empty_store]
  by (simp add: empty_store_def)

text \<open>
  Claim C2 as the specification words it fails: for a farm that is already processed the
  call reports success and replaces the stored description.
\<close>

theorem update_farm_description_conflict_counterexample:
  "fst (update_farm_description (JStr ''f1'') ''new text'' ''2025-01-02T00:00:00''
     (snd (import_from_json
        (Some (JArr [JObj [(''id'', JStr ''f1''), (''description'', JStr ''old text'')]]))
        empty_store))) = True \<and>
   hashes (snd (update_farm_description (JStr ''f1'') ''new text'' ''2025-01-02T00:00:00''
     (snd (import_from_json
        (Some (JArr [JObj [(''id'', JStr ''f1''), (''description'', JStr ''old text'')]]))
        empty_store)))) ''f1'' ''description'' = Some (JStr ''new text'') \<and>
   sets (snd (import_from_json
        (Some (JArr [JObj [(''id'', JStr ''f1''), (''description'', JStr ''old text'')]]))
        empty_store)) FARMS_PROCESSED = {''f1''}"
  by (simp add: update_text_id run_simps)

section \<open>Properties of redis\_description\_workflow.py\<close>

lemma well_formed_gets:
  assumes "well_formed farm"
  shows "\<exists>a b c w. dict_get farm ''name'' (JStr ''Unknown Farm'') = Inr a \<and>
           dict_get farm ''id'' (JStr ''Unknown'') = Inr b \<and>
           dict_get farm ''contact'' (JObj []) = Inr c \<and>
           dict_get c ''website'' (JStr []) = Inr w"
proof (cases farm)
  case (JObj kv)
  show ?thesis
  proof (cases "map_of kv ''contact''")
    case None
    then show ?thesis using JObj by (simp add: dict_get_def)
  next
    case (Some c)
    then obtain ckv where "c = JObj ckv"
      using assms JObj by (cases c) (simp_all add: well_formed_def)
    then show ?thesis using JObj Some by (simp add: dict_get_def)
  qed
qed (use assms in \<open>simp_all add: well_formed_def\<close>)

lemma batch_step:
  assumes "well_formed farm"
  shows "\<exists>b. dict_get farm ''id'' (JStr ''Unknown'') = Inr b \<and>
     process_farm_batch ((farm, fx) # rest) st =
       (case process_farm b fx st of
          (s, f, st') \<Rightarrow>
            (case process_farm_batch rest st' of
               Inl e \<Rightarrow> Inl e
             | Inr (res, st'') \<Rightarrow>
                 Inr (\<lparr>success = s + success res, failed = f + failed res\<rparr>, st'')))"
proof -
  obtain a b c w where g: "dict_get farm ''name'' (JStr ''Unknown Farm'') = Inr a"
     "dict_get farm ''id'' (JStr ''Unknown'') = Inr b"
     "dict_get farm ''contact'' (JObj []) = Inr c"
     "dict_get c ''website'' (JStr []) = Inr w"
    using well_formed_gets[OF assms] by blast
  show ?thesis using g by (simp add: process_farm_batch.simps(2))
qed

lemma execute_keeps:
  assumes "execute [HSET m f1, HSET m f2, SADD FARMS_PROCESSED m, SREM FARMS_NEEDS_DESCRIPTION m] st = Inr st'"
  shows "sets st' FARMS_FAILED = sets st FARMS_FAILED \<and> sets st' FARMS_ALL = sets st FARMS_ALL"
proof -
  have "encodable (SADD FARMS_PROCESSED m)" using assms by (simp add: execute_def split: if_splits)
  then obtain s where s: "redis_encode m = Inr s" by (auto simp: encodable_def split: sum.splits)
  show ?thesis using assms s by (auto simp: execute_def split: if_splits)
qed

lemma update_keeps:
  "sets (snd (update_farm_description m d t st)) FARMS_FAILED = sets st FARMS_FAILED \<and>
   sets (snd (update_farm_description m d t st)) FARMS_ALL = sets st FARMS_ALL"
proof (cases "execute [HSET m [(''description'', JStr d)], HSET m [(''updatedAt'', JStr t)],
                SADD FARMS_PROCESSED m, SREM FARMS_NEEDS_DESCRIPTION m] st")
  case (Inl e)
  then show ?thesis by (simp add: update_farm_description_def)
next
  case (Inr st')
  then show ?thesis using execute_keeps[OF Inr] by (simp add: update_farm_description_def)
qed

lemma process_farm_keeps:
  assumes "process_farm m fx st = (s, f, st')"
  shows "sets st' FARMS_FAILED = sets st FARMS_FAILED \<and> sets st' FARMS_ALL = sets st FARMS_ALL"
proof (cases "scrape_ok fx \<and> \<not> prompt_raises fx \<and> generated fx \<noteq> None")
  case True
  then obtain d where d: "generated fx = Some d" by auto
  obtain ok st1 where u: "update_farm_description m d (updated_at fx) st = (ok, st1)"
    by (cases "update_farm_description m d (updated_at fx) st")
  have "st' = st1" using assms True d u by (cases ok) (simp_all add: process_farm_def Let_def)
  then show ?thesis using update_keeps[of m d "updated_at fx" st] u by simp
next
  case False
  then have "st' = st" using assms by (auto simp: process_farm_def Let_def split: if_splits)
  then show ?thesis by simp
qed

lemma batch_total:
  assumes "list_all (\<lambda>p. well_formed (fst p)) items"
  shows "\<exists>res st'. process_farm_batch items st = Inr (res, st') \<and>
           sets st' FARMS_FAILED = sets st FARMS_FAILED \<and> sets st' FARMS_ALL = sets st FARMS_ALL"
  using assms
proof (induction items arbitrary: st)
  case Nil
  then show ?case by simp
next
  case (Cons p items)
  obtain farm fx where p: "p = (farm, fx)" by (cases p)
  have wf: "well_formed farm" using Cons.prems p by simp
  obtain b where b: "process_farm_batch ((farm, fx) # items) st =
       (case process_farm b fx st of
          (s, f, st') \<Rightarrow>
            (case process_farm_batch items st' of
               Inl e \<Rightarrow> Inl e
             | Inr (res, st'') \<Rightarrow>
                 Inr (\<lparr>success = s + success res, failed = f + failed res\<rparr>, st'')))"
    using batch_step[OF wf, of fx items st] by blast
  obtain s f st1 where pf: "process_farm b fx st = (s, f, st1)"
    by (cases "process_farm b fx st") auto
  have rest: "list_all (\<lambda>p. well_formed (fst p)) items" using Cons.prems by simp
  obtain res st2 where r: "process_farm_batch items st1 = Inr (res, st2)"
      "sets st2 FARMS_FAILED = sets st1 FARMS_FAILED" "sets st2 FARMS_ALL = sets st1 FARMS_ALL"
    using Cons.IH[OF rest, of st1] by blast
  show ?case unfolding p b using pf r process_farm_keeps[OF pf] by simp
qed

lemma item_succeeds:
  assumes "farm_with_id farm i" "op_succeeds fx"
  shows "process_farm_batch ((farm, fx) # rest) st =
       (case process_farm_batch rest (described i fx st) of
          Inl e \<Rightarrow> Inl e
        | Inr (res, st'') \<Rightarrow> Inr (\<lparr>success = Suc (success res), failed = failed res\<rparr>, st''))"
proof -
  obtain d where d: "generated fx = Some d" using assms(2) by (auto simp: op_succeeds_def)
  have pf: "process_farm (JStr i) fx st = (1, 0, described i fx st)"
    using assms(2) d by (simp add: process_farm_def op_succeeds_def described_def update_text_id)
  obtain b where b: "dict_get farm ''id'' (JStr ''Unknown'') = Inr b"
    "process_farm_batch ((farm, fx) # rest) st =
       (case process_farm b fx st of
          (s, f, st') \<Rightarrow>
            (case process_farm_batch rest st' of
               Inl e \<Rightarrow> Inl e
             | Inr (res, st'') \<Rightarrow>
                 Inr (\<lparr>success = s + success res, failed = f + failed res\<rparr>, st'')))"
    using batch_step[of farm fx rest st] assms(1) by (auto simp: farm_with_id_def)
  have "b = JStr i" using b(1) assms(1) by (simp add: farm_with_id_def)
  then show ?thesis using b(2) pf by (simp split: sum.split prod.split)
qed

lemma item_fails:
  assumes "farm_with_id farm i" "op_fails fx"
  shows "process_farm_batch ((farm, fx) # rest) st =
       (case process_farm_batch rest st of
          Inl e \<Rightarrow> Inl e
        | Inr (res, st'') \<Rightarrow> Inr (\<lparr>success = success res, failed = Suc (failed res)\<rparr>, st''))"
proof -
  have pf: "process_farm (JStr i) fx st = (0, 1, st)"
    using assms(2) by (auto simp: process_farm_def op_fails_def Let_def)
  obtain b where b: "dict_get farm ''id'' (JStr ''Unknown'') = Inr b"
    "process_farm_batch ((farm, fx) # rest) st =
       (case process_farm b fx st of
          (s, f, st') \<Rightarrow>
            (case process_farm_batch rest st' of
               Inl e \<Rightarrow> Inl e
             | Inr (res, st'') \<Rightarrow>
                 Inr (\<lparr>success = s + success res, failed = f + failed res\<rparr>, st'')))"
    using batch_step[of farm fx rest st] assms(1) by (auto simp: farm_with_id_def)
  have "b = JStr i" using b(1) assms(1) by (simp add: farm_with_id_def)
  then show ?thesis using b(2) pf by (simp split: sum.split prod.split)
qed

lemma described_sets:
  "sets (described i fx st) =
     (sets st)(FARMS_PROCESSED := insert i (sets st FARMS_PROCESSED),
               FARMS_NEEDS_DESCRIPTION := sets st FARMS_NEEDS_DESCRIPTION - {i})"
  by (simp add: described_def update_text_id)

lemma five_items:
  assumes "farm_with_id f1 i1" "farm_with_id f2 i2" "farm_with_id f3 i3" "farm_with_id f4 i4"
     "farm_with_id f5 i5" "op_succeeds x1" "op_succeeds x2" "op_fails x3" "op_succeeds x4" "op_succeeds x5"
  shows "process_farm_batch [(f1, x1), (f2, x2), (f3, x3), (f4, x4), (f5, x5)] st =
     Inr (\<lparr>success = 4, failed = 1\<rparr>,
          described i5 x5 (described i4 x4 (described i2 x2 (described i1 x1 st))))"
  by (simp add: item_succeeds[OF assms(1,6)] item_succeeds[OF assms(2,7)] item_fails[OF assms(3,8)]
      item_succeeds[OF assms(4,9)] item_succeeds[OF assms(5,10)])

lemma example_store_sets:
  "sets example_store =
     (\<lambda>k. {})(FARMS_ALL := {''f1'', ''f2'', ''f3'', ''f4'', ''f5''},
              FARMS_NEEDS_DESCRIPTION := {''f1'', ''f2'', ''f3'', ''f4'', ''f5''})"
  by (simp add: example_store_def example_farm_def run_simps fun_eq_iff insert_commute)

lemma example_farm_id: "farm_with_id (example_farm i) i"
  by (simp add: farm_with_id_def well_formed_def example_farm_def dict_get_def)

lemma example_ops: "op_succeeds op_ok" "op_fails op_error"
  by (simp_all add: op_succeeds_def op_fails_def op_ok_def op_error_def)

text \<open>
  The counts depend on the CSV row being written: an exception from \<open>save_to_csv\<close> is
  caught by the same handler and adds to \<open>failed\<close> an item that has been counted
  already.  Here the third farm's scrape fails and its CSV write raises.
\<close>

lemma csv_failure_counted_again:
  "batch_report (process_farm_batch
      [(example_farm ''f1'', op_ok), (example_farm ''f2'', op_ok), (example_farm ''f3'', op_error_csv),
       (example_farm ''f4'', op_ok), (example_farm ''f5'', op_ok)] example_store)
   = Inr (\<lparr>success = 4, failed = 2\<rparr>, {}, {''f3''})"
  by (auto simp: process_farm_batch.simps(2) process_farm_def update_text_id
      batch_report_def example_farm_def op_ok_def op_error_csv_def dict_get_def example_store_sets)

text \<open>
  Claim C6, as the code has it.  For farms as \<open>get_farm\<close> returns them,
  \<open>process_farm_batch\<close> raises nothing and leaves the failed set as it was, whatever
  the operations and the CSV writes do.  Provided that no call of \<open>save_to_csv\<close> raises
  (\<open>op_succeeds\<close> and \<open>op_fails\<close> both require it), for five farms of which the third
  fails and the others succeed it returns 4 successes and 1 failure; the failed set is
  unchanged, and the needs-description set loses the four farms that succeeded and
  nothing else.
\<close>

theorem process_farm_batch_outcome:
  "(list_all (\<lambda>p. well_formed (fst p)) items \<longrightarrow>
      (\<exists>res st'. process_farm_batch items st = Inr (res, st') \<and>
         sets st' FARMS_FAILED = sets st FARMS_FAILED)) \<and>
   (farm_with_id f1 i1 \<and> farm_with_id f2 i2 \<and> farm_with_id f3 i3 \<and> farm_with_id f4 i4 \<and>
    farm_with_id f5 i5 \<and> op_succeeds x1 \<and> op_succeeds x2 \<and> op_fails x3 \<and> op_succeeds x4 \<and>
    op_succeeds x5 \<longrightarrow>
      batch_report (process_farm_batch [(f1, x1), (f2, x2), (f3, x3), (f4, x4), (f5, x5)] st) =
        Inr (\<lparr>success = 4, failed = 1\<rparr>, sets st FARMS_FAILED,
             sets st FARMS_NEEDS_DESCRIPTION - {i1, i2, i4, i5}))"
proof -
  have a: "\<exists>res st'. process_farm_batch items st = Inr (res, st') \<and>
         sets st' FARMS_FAILED = sets st FARMS_FAILED"
    if "list_all (\<lambda>p. well_formed (fst p)) items"
    using batch_total[OF that, of st] by blast
  have b: "batch_report (process_farm_batch [(f1, x1), (f2, x2), (f3, x3), (f4, x4), (f5, x5)] st) =
        Inr (\<lparr>success = 4, failed = 1\<rparr>, sets st FARMS_FAILED,
             sets st FARMS_NEEDS_DESCRIPTION - {i1, i2, i4, i5})"
    if "farm_with_id f1 i1" "farm_with_id f2 i2" "farm_with_id f3 i3" "farm_with_id f4 i4"
       "farm_with_id f5 i5" "op_succeeds x1" "op_succeeds x2" "op_fails x3" "op_succeeds x4"
       "op_succeeds x5"
    unfolding five_items[OF that]
    by (auto simp: batch_report_def described_sets)
  show ?thesis using a b by blast
qed

theorem process_farm_batch_outcome_witness:
  "batch_report (process_farm_batch
      [(example_farm ''f1'', op_ok), (example_farm ''f2'', op_ok), (example_farm ''f3'', op_error),
       (example_farm ''f4'', op_ok), (example_farm ''f5'', op_ok)] example_store)
   = Inr (\<lparr>success = 4, failed = 1\<rparr>, sets example_store FARMS_FAILED,
          sets example_store FARMS_NEEDS_DESCRIPTION - {''f1'', ''f2'', ''f4'', ''f5''})"
proof -
  have h: "farm_with_id (example_farm ''f1'') ''f1'' \<and> farm_with_id (example_farm ''f2'') ''f2'' \<and>
    farm_with_id (example_farm ''f3'') ''f3'' \<and> farm_with_id (example_farm ''f4'') ''f4'' \<and>
    farm_with_id (example_farm ''f5'') ''f5'' \<and> op_succeeds op_ok \<and> op_succeeds op_ok \<and>
    op_fails op_error \<and> op_succeeds op_ok \<and> op_succeeds op_ok"
    by (simp add: farm_with_id_def well_formed_def example_farm_def dict_get_def
        op_succeeds_def op_fails_def op_ok_def op_error_def)
  show ?thesis
    using process_farm_batch_outcome[where ?f1.0 = "example_farm ''f1''" and ?i1.0 = "''f1''"
        and ?f2.0 = "example_farm ''f2''" and ?i2.0 = "''f2''"
        and ?f3.0 = "example_farm ''f3''" and ?i3.0 = "''f3''"
        and ?f4.0 = "example_farm ''f4''" and ?i4.0 = "''f4''"
        and ?f5.0 = "example_farm ''f5''" and ?i5.0 = "''f5''"
        and ?x1.0 = op_ok and ?x2.0 = op_ok and ?x3.0 = op_error and ?x4.0 = op_ok
        and ?x5.0 = op_ok and st = example_store and items = "[]"] h
    by blast
qed

text \<open>
  Claim C6 as the specification words it fails in its last part: after the batch the
  failed set is empty and the third farm is still in the needs-description set.
\<close>

theorem process_farm_batch_failed_set_counterexample:
  "batch_report (process_farm_batch
      [(example_farm ''f1'', op_ok), (example_farm ''f2'', op_ok), (example_farm ''f3'', op_error),
       (example_farm ''f4'', op_ok), (example_farm ''f5'', op_ok)] example_store)
   = Inr (\<lparr>success = 4, failed = 1\<rparr>, {}, {''f3''})"
  by (auto simp: five_items[OF example_farm_id example_farm_id example_farm_id example_farm_id
        example_farm_id example_ops(1) example_ops(1) example_ops(2) example_ops(1) example_ops(1)]
      batch_report_def described_sets example_store_sets)

end
